theory Spec2Isabelle
  imports Main
begin

section \<open>Objects, references and the heap\<close>

text \<open>
  The program is \<^verbatim>\<open>my_red_black_tree.py\<close>: a class \<^verbatim>\<open>RBNode\<close> of mutable node
  objects linked by \<^verbatim>\<open>parent\<close>, \<^verbatim>\<open>left\<close> and \<^verbatim>\<open>right\<close>, and a class \<^verbatim>\<open>RBTree\<close>
  holding the sentinel \<^verbatim>\<open>NIL\<close> and the \<^verbatim>\<open>root\<close>. Objects are shared and mutated in
  place, so the model has an explicit heap: a reference is either Python's \<^verbatim>\<open>None\<close> or
  the address of an object, and two references are the same object (Python's default
  \<^verbatim>\<open>==\<close> on \<^verbatim>\<open>RBNode\<close>, which defines no \<^verbatim>\<open>__eq__\<close>) exactly when they are equal.
\<close>

datatype Color = RED | BLACK

datatype error = AttributeError | TypeError

type_synonym addr = nat

datatype ref = PyNone | Addr addr

text \<open>
  An \<^verbatim>\<open>RBNode\<close> object. The field \<^verbatim>\<open>value\<close> is called \<open>val\<close> here; it is \<open>None\<close>
  for the sentinel, which is built with \<^verbatim>\<open>value=None\<close>.
\<close>

record 'a RBNode =
  val :: "'a option"
  color :: Color
  parent :: ref
  left :: ref
  right :: ref

text \<open>
  An \<^verbatim>\<open>RBTree\<close> object together with the heap of node objects. The instance has
  exactly the two attributes that \<^verbatim>\<open>__init__\<close> sets, \<^verbatim>\<open>NIL\<close> and \<^verbatim>\<open>root\<close>.
  Addresses below \<open>fresh\<close> hold the objects created so far; creating an object uses
  address \<open>fresh\<close>.
\<close>

record 'a RBTree =
  heap :: "addr \<Rightarrow> 'a RBNode"
  fresh :: addr
  NIL :: ref
  root :: ref

subsection \<open>Statements that may raise\<close>

text \<open>
  A Python statement either completes with a value or raises; in both cases the
  mutations it has made so far stay in the heap. A computation is a function from
  the state to a result that carries the state reached.
\<close>

datatype ('x, 's) res = Ok 'x 's | Raise error 's

definition ret :: "'x \<Rightarrow> 's \<Rightarrow> ('x, 's) res" where
  "ret x = (\<lambda>s. Ok x s)"

definition bnd :: "('s \<Rightarrow> ('x, 's) res) \<Rightarrow> ('x \<Rightarrow> 's \<Rightarrow> ('y, 's) res) \<Rightarrow> 's \<Rightarrow> ('y, 's) res" where
  "bnd m k = (\<lambda>s. case m s of Ok x s' \<Rightarrow> k x s' | Raise e s' \<Rightarrow> Raise e s')"

definition seq :: "('s \<Rightarrow> (unit, 's) res) \<Rightarrow> ('s \<Rightarrow> ('y, 's) res) \<Rightarrow> 's \<Rightarrow> ('y, 's) res" where
  "seq m k = bnd m (\<lambda>_. k)"

text \<open>
  Attribute access \<^verbatim>\<open>r.f\<close> and assignment \<^verbatim>\<open>r.f = x\<close> on a node reference. On
  \<^verbatim>\<open>None\<close> both raise \<^verbatim>\<open>AttributeError\<close>.
\<close>

definition get :: "('a RBNode \<Rightarrow> 'x) \<Rightarrow> ref \<Rightarrow> 'a RBTree \<Rightarrow> ('x, 'a RBTree) res" where
  "get f r = (\<lambda>t. case r of PyNone \<Rightarrow> Raise AttributeError t
                          | Addr a \<Rightarrow> Ok (f (heap t a)) t)"

definition store :: "addr \<Rightarrow> ('a RBNode \<Rightarrow> 'a RBNode) \<Rightarrow> 'a RBTree \<Rightarrow> 'a RBTree" where
  "store a f t = t\<lparr>heap := (heap t)(a := f (heap t a))\<rparr>"

definition upd :: "('a RBNode \<Rightarrow> 'a RBNode) \<Rightarrow> ref \<Rightarrow> 'a RBTree \<Rightarrow> (unit, 'a RBTree) res" where
  "upd f r = (\<lambda>t. case r of PyNone \<Rightarrow> Raise AttributeError t
                          | Addr a \<Rightarrow> Ok () (store a f t))"

definition set_color :: "ref \<Rightarrow> Color \<Rightarrow> 'a RBTree \<Rightarrow> (unit, 'a RBTree) res" where
  "set_color r c = upd (\<lambda>n. n\<lparr>color := c\<rparr>) r"

definition set_parent :: "ref \<Rightarrow> ref \<Rightarrow> 'a RBTree \<Rightarrow> (unit, 'a RBTree) res" where
  "set_parent r x = upd (\<lambda>n. n\<lparr>parent := x\<rparr>) r"

definition set_left :: "ref \<Rightarrow> ref \<Rightarrow> 'a RBTree \<Rightarrow> (unit, 'a RBTree) res" where
  "set_left r x = upd (\<lambda>n. n\<lparr>left := x\<rparr>) r"

definition set_right :: "ref \<Rightarrow> ref \<Rightarrow> 'a RBTree \<Rightarrow> (unit, 'a RBTree) res" where
  "set_right r x = upd (\<lambda>n. n\<lparr>right := x\<rparr>) r"

text \<open>
  The attributes of the tree object: \<^verbatim>\<open>self.root\<close> and \<^verbatim>\<open>self.root = x\<close> as
  statements; \<^verbatim>\<open>self.NIL\<close> is read as \<open>NIL t\<close> where it occurs.
\<close>

definition self_root :: "'a RBTree \<Rightarrow> (ref, 'a RBTree) res" where
  "self_root = (\<lambda>t. Ok (root t) t)"

definition set_self_root :: "ref \<Rightarrow> 'a RBTree \<Rightarrow> (unit, 'a RBTree) res" where
  "set_self_root x = (\<lambda>t. Ok () (t\<lparr>root := x\<rparr>))"

text \<open>
  \<^verbatim>\<open>self.nil\<close>, in lower case, as both rotations write it (lines 147, 152, 177, 182).
  \<^verbatim>\<open>RBTree\<close> defines no such attribute: \<^verbatim>\<open>__init__\<close> sets \<^verbatim>\<open>NIL\<close> and \<^verbatim>\<open>root\<close>, no
  method sets another one, and the class has no \<^verbatim>\<open>__getattr__\<close>. Attribute names are
  case sensitive, so the lookup raises \<^verbatim>\<open>AttributeError\<close>.
\<close>

definition self_nil :: "'a RBTree \<Rightarrow> (ref, 'a RBTree) res" where
  "self_nil = (\<lambda>t. Raise AttributeError t)"

text \<open>
  The comparisons \<^verbatim>\<open>value < r.value\<close> and \<^verbatim>\<open>value > r.value\<close>. The inserted value is
  drawn from a linear order; the stored value is \<^verbatim>\<open>None\<close> for the sentinel, and
  ordering a value against \<^verbatim>\<open>None\<close> raises \<^verbatim>\<open>TypeError\<close>.
\<close>

definition value_lt :: "'a::linorder \<Rightarrow> ref \<Rightarrow> 'a RBTree \<Rightarrow> (bool, 'a RBTree) res" where
  "value_lt v r = bnd (get val r) (\<lambda>x. case x of None \<Rightarrow> (\<lambda>t. Raise TypeError t)
                                              | Some w \<Rightarrow> ret (v < w))"

definition value_gt :: "'a::linorder \<Rightarrow> ref \<Rightarrow> 'a RBTree \<Rightarrow> (bool, 'a RBTree) res" where
  "value_gt v r = bnd (get val r) (\<lambda>x. case x of None \<Rightarrow> (\<lambda>t. Raise TypeError t)
                                              | Some w \<Rightarrow> ret (v > w))"

section \<open>The tree\<close>

subsection \<open>\<^verbatim>\<open>RBTree.__init__\<close>\<close>

text \<open>
  Lines 46 to 50: the sentinel is created BLACK with value \<^verbatim>\<open>None\<close>, its three links
  are pointed at itself, and it becomes the root. It is the first object, at address 0.
  The cells not yet in use hold a blank record.
\<close>

definition blank :: "'a RBNode" where
  "blank = \<lparr>val = None, color = BLACK, parent = PyNone, left = PyNone, right = PyNone\<rparr>"

definition new_tree :: "'a RBTree" where
  "new_tree = \<lparr>heap = (\<lambda>_. blank)(0 := \<lparr>val = None, color = BLACK,
                                         parent = Addr 0, left = Addr 0, right = Addr 0\<rparr>),
               fresh = 1, NIL = Addr 0, root = Addr 0\<rparr>"

subsection \<open>\<^verbatim>\<open>RBTree._rotate_left\<close> and \<^verbatim>\<open>RBTree._rotate_right\<close>\<close>

text \<open>Lines 139 to 166, statement by statement.\<close>

definition rotate_left :: "ref \<Rightarrow> 'a RBTree \<Rightarrow> (unit, 'a RBTree) res" where
  "rotate_left pivot_parent =
     bnd (get right pivot_parent) (\<lambda>pivot.
     bnd self_nil (\<lambda>nil.
     if pivot = nil then ret ()
     else
       seq (bnd (get left pivot) (\<lambda>pl. set_right pivot_parent pl))
      (seq (bnd (get left pivot) (\<lambda>pl. bnd self_nil (\<lambda>nil'.
              if pl \<noteq> nil' then set_parent pl pivot_parent else ret ())))
      (seq (bnd (get parent pivot_parent) (\<lambda>pp. set_parent pivot pp))
      (seq (bnd (get parent pivot_parent) (\<lambda>pp.
              if pp = PyNone then set_self_root pivot
              else bnd (get left pp) (\<lambda>ppl.
                if pivot_parent = ppl then set_left pp pivot
                else set_right pp pivot)))
      (seq (set_left pivot pivot_parent)
           (set_parent pivot_parent pivot)))))))"

text \<open>Lines 169 to 196, the mirror image.\<close>

definition rotate_right :: "ref \<Rightarrow> 'a RBTree \<Rightarrow> (unit, 'a RBTree) res" where
  "rotate_right pivot_parent =
     bnd (get left pivot_parent) (\<lambda>pivot.
     bnd self_nil (\<lambda>nil.
     if pivot = nil then ret ()
     else
       seq (bnd (get right pivot) (\<lambda>pr. set_left pivot_parent pr))
      (seq (bnd (get right pivot) (\<lambda>pr. bnd self_nil (\<lambda>nil'.
              if pr \<noteq> nil' then set_parent pr pivot_parent else ret ())))
      (seq (bnd (get parent pivot_parent) (\<lambda>pp. set_parent pivot pp))
      (seq (bnd (get parent pivot_parent) (\<lambda>pp.
              if pp = PyNone then set_self_root pivot
              else bnd (get right pp) (\<lambda>ppr.
                if pivot_parent = ppr then set_right pp pivot
                else set_left pp pivot)))
      (seq (set_right pivot pivot_parent)
           (set_parent pivot_parent pivot)))))))"

subsection \<open>\<^verbatim>\<open>RBTree._insert_fixup\<close>\<close>

text \<open>
  The test of the loop at line 97, \<^verbatim>\<open>node.parent.color == Color.RED\<close>, and the path
  \<^verbatim>\<open>node.parent.parent\<close>. The blocks of the loop body below return the value of the
  variable \<^verbatim>\<open>node\<close> at their end.
\<close>

definition fixup_test :: "ref \<Rightarrow> 'a RBTree \<Rightarrow> (bool, 'a RBTree) res" where
  "fixup_test node = bnd (get parent node) (\<lambda>p. bnd (get color p) (\<lambda>c. ret (c = RED)))"

definition node_parent_parent :: "ref \<Rightarrow> 'a RBTree \<Rightarrow> (ref, 'a RBTree) res" where
  "node_parent_parent node = bnd (get parent node) (\<lambda>p. get parent p)"

text \<open>
  Case 1, lines 103 to 106 and again lines 122 to 125: the uncle is RED. Parent and
  uncle become BLACK, the grandparent RED, and \<^verbatim>\<open>node\<close> moves to the grandparent.
\<close>

definition recolor_case :: "ref \<Rightarrow> ref \<Rightarrow> 'a RBTree \<Rightarrow> (ref, 'a RBTree) res" where
  "recolor_case node uncle =
     seq (bnd (get parent node) (\<lambda>p. set_color p BLACK))
    (seq (set_color uncle BLACK)
    (seq (bnd (node_parent_parent node) (\<lambda>g. set_color g RED))
         (node_parent_parent node)))"

text \<open>
  Cases 2 and 3 when the parent is a left child, lines 108 to 115, and their mirror
  image when it is a right child, lines 127 to 134.
\<close>

definition rotate_case_left :: "ref \<Rightarrow> 'a RBTree \<Rightarrow> (ref, 'a RBTree) res" where
  "rotate_case_left node =
     bnd (bnd (get parent node) (\<lambda>p. bnd (get right p) (\<lambda>pr.
            if node = pr then seq (rotate_left p) (ret p) else ret node)))
         (\<lambda>node'.
            seq (bnd (get parent node') (\<lambda>p. set_color p BLACK))
           (seq (bnd (node_parent_parent node') (\<lambda>g. set_color g RED))
           (seq (bnd (node_parent_parent node') rotate_right)
                (ret node'))))"

definition rotate_case_right :: "ref \<Rightarrow> 'a RBTree \<Rightarrow> (ref, 'a RBTree) res" where
  "rotate_case_right node =
     bnd (bnd (get parent node) (\<lambda>p. bnd (get left p) (\<lambda>pl.
            if node = pl then seq (rotate_right p) (ret p) else ret node)))
         (\<lambda>node'.
            seq (bnd (get parent node') (\<lambda>p. set_color p BLACK))
           (seq (bnd (node_parent_parent node') (\<lambda>g. set_color g RED))
           (seq (bnd (node_parent_parent node') rotate_left)
                (ret node'))))"

text \<open>The body of the loop, lines 98 to 134.\<close>

definition fixup_body :: "ref \<Rightarrow> 'a RBTree \<Rightarrow> (ref, 'a RBTree) res" where
  "fixup_body node =
     bnd (get parent node) (\<lambda>p.
     bnd (bnd (node_parent_parent node) (get left)) (\<lambda>gl.
     if p = gl then
       bnd (bnd (node_parent_parent node) (get right)) (\<lambda>uncle.
       bnd (get color uncle) (\<lambda>uc.
       if uc = RED then recolor_case node uncle else rotate_case_left node))
     else
       bnd (bnd (node_parent_parent node) (get left)) (\<lambda>uncle.
       bnd (get color uncle) (\<lambda>uc.
       if uc = RED then recolor_case node uncle else rotate_case_right node))))"

text \<open>
  The \<^verbatim>\<open>while\<close> loop of lines 97 to 134. Nothing in the source bounds the number of
  iterations, so the loop is a partial function: \<open>None\<close> is a loop that never ends.
\<close>

partial_function (option) fixup_while :: "ref \<Rightarrow> 'a RBTree \<Rightarrow> (unit, 'a RBTree) res option" where
  "fixup_while node t =
     (case fixup_test node t of
        Raise e t' \<Rightarrow> Some (Raise e t')
      | Ok go t' \<Rightarrow>
          if \<not> go then Some (Ok () t')
          else (case fixup_body node t' of
                  Raise e t'' \<Rightarrow> Some (Raise e t'')
                | Ok node' t'' \<Rightarrow> fixup_while node' t''))"

declare fixup_while.simps [code]

text \<open>Lines 92 to 136: the loop, then \<^verbatim>\<open>self.root.color = Color.BLACK\<close>.\<close>

definition insert_fixup :: "ref \<Rightarrow> 'a RBTree \<Rightarrow> (unit, 'a RBTree) res option" where
  "insert_fixup node t =
     (case fixup_while node t of
        None \<Rightarrow> None
      | Some (Raise e t') \<Rightarrow> Some (Raise e t')
      | Some (Ok u t') \<Rightarrow> Some (bnd self_root (\<lambda>r. set_color r BLACK) t'))"

subsection \<open>\<^verbatim>\<open>RBTree.insert\<close>\<close>

text \<open>
  The descent of lines 68 to 75, with the loop variables \<^verbatim>\<open>parent\<close> and \<^verbatim>\<open>current\<close>.
  It ends by falling out of the loop with the last value of \<^verbatim>\<open>parent\<close>, or by the
  \<^verbatim>\<open>return\<close> of line 75.
\<close>

datatype 'x loop_exit = Fell_through 'x | Returned

partial_function (option) descend ::
  "'a::linorder \<Rightarrow> ref \<Rightarrow> ref \<Rightarrow> 'a RBTree \<Rightarrow> (ref loop_exit, 'a RBTree) res option" where
  "descend v par current t =
     (if current \<noteq> NIL t then
        (case value_lt v current t of
           Raise e t' \<Rightarrow> Some (Raise e t')
         | Ok lt t' \<Rightarrow>
             if lt then
               (case get left current t' of
                  Raise e t'' \<Rightarrow> Some (Raise e t'')
                | Ok l t'' \<Rightarrow> descend v current l t'')
             else
               (case value_gt v current t' of
                  Raise e t'' \<Rightarrow> Some (Raise e t'')
                | Ok gt t'' \<Rightarrow>
                    if gt then
                      (case get right current t'' of
                         Raise e t''' \<Rightarrow> Some (Raise e t''')
                       | Ok r t''' \<Rightarrow> descend v current r t''')
                    else Some (Ok Returned t'')))
      else Some (Ok (Fell_through par) t))"

declare descend.simps [code]

text \<open>
  Lines 78 to 86. The object bound to \<^verbatim>\<open>new_node\<close> at line 55 is known only to that
  local variable until one of the lines 82, 84 or 86 stores it in the tree; the model
  keeps it as a local record until then and gives it the next free address of the heap
  here. A call that leaves at line 75 never stores it.
\<close>

definition attach :: "'a::linorder \<Rightarrow> 'a RBNode \<Rightarrow> ref \<Rightarrow> 'a RBTree \<Rightarrow> (ref, 'a RBTree) res" where
  "attach v new_node par t =
     (let a = fresh t;
          t1 = t\<lparr>heap := (heap t)(a := new_node\<lparr>parent := par\<rparr>), fresh := Suc a\<rparr>
      in bnd (if par = NIL t1 then set_self_root (Addr a)
              else bnd (value_lt v par) (\<lambda>lt.
                     if lt then set_left par (Addr a) else set_right par (Addr a)))
             (\<lambda>_. ret (Addr a)) t1)"

text \<open>Lines 53 to 89.\<close>

definition insert_rb :: "'a::linorder \<Rightarrow> 'a RBTree \<Rightarrow> (unit, 'a RBTree) res option" where
  "insert_rb v t =
     (let new_node = \<lparr>val = Some v, color = RED, parent = PyNone,
                      left = NIL t, right = NIL t\<rparr>
      in case descend v (NIL t) (root t) t of
           None \<Rightarrow> None
         | Some (Raise e t') \<Rightarrow> Some (Raise e t')
         | Some (Ok Returned t') \<Rightarrow> Some (Ok () t')
         | Some (Ok (Fell_through par) t') \<Rightarrow>
             (case attach v new_node par t' of
                Raise e t'' \<Rightarrow> Some (Raise e t'')
              | Ok n t'' \<Rightarrow> insert_fixup n t''))"

text \<open>
  The driver of lines 200 to 203, \<^verbatim>\<open>for v in values: tree.insert(v)\<close>: the calls are
  made in turn on the same tree, and an exception ends the loop.
\<close>

fun insert_all :: "'a::linorder list \<Rightarrow> 'a RBTree \<Rightarrow> (unit, 'a RBTree) res option" where
  "insert_all [] t = Some (Ok () t)"
| "insert_all (v # vs) t =
     (case insert_rb v t of
        None \<Rightarrow> None
      | Some (Raise e t') \<Rightarrow> Some (Raise e t')
      | Some (Ok u t') \<Rightarrow> insert_all vs t')"

text \<open>
  A client that makes the calls in turn on the same tree and goes on after a call that
  raised (each call inside a \<^verbatim>\<open>try\<close> whose handler does nothing). The result is the
  tree after the last call.
\<close>

fun insert_each :: "'a::linorder list \<Rightarrow> 'a RBTree \<Rightarrow> 'a RBTree option" where
  "insert_each [] t = Some t"
| "insert_each (v # vs) t =
     (case insert_rb v t of
        None \<Rightarrow> None
      | Some (Raise e t') \<Rightarrow> insert_each vs t'
      | Some (Ok u t') \<Rightarrow> insert_each vs t')"

text \<open>
  The trees a client can hold: the one \<^verbatim>\<open>RBTree()\<close> builds, and the tree left by a call
  of \<^verbatim>\<open>insert\<close> on such a tree, whether the call returned or raised.
\<close>

inductive reachable :: "'a::linorder RBTree \<Rightarrow> bool" where
  init: "reachable new_tree"
| returned: "reachable t \<Longrightarrow> insert_rb v t = Some (Ok u t') \<Longrightarrow> reachable t'"
| raised: "reachable t \<Longrightarrow> insert_rb v t = Some (Raise e t') \<Longrightarrow> reachable t'"

section \<open>Observations\<close>

text \<open>The objects created so far, in the order of their creation (the sentinel first).\<close>

definition objects :: "'a RBTree \<Rightarrow> 'a RBNode list" where
  "objects t = map (heap t) [0..<fresh t]"

text \<open>Invariant 2 (the root is BLACK) and invariant 3 (the sentinel is BLACK).\<close>

definition root_black :: "'a RBTree \<Rightarrow> bool" where
  "root_black t = (case root t of PyNone \<Rightarrow> False | Addr a \<Rightarrow> color (heap t a) = BLACK)"

definition sentinel_black :: "'a RBTree \<Rightarrow> bool" where
  "sentinel_black t = (case NIL t of PyNone \<Rightarrow> False | Addr a \<Rightarrow> color (heap t a) = BLACK)"

text \<open>
  The height of the subtree at a reference, counted in nodes as \<^verbatim>\<open>BST.height\<close> of
  \<^verbatim>\<open>my_bst.py\<close> counts it: 0 at the sentinel, one more than the higher child elsewhere.
  \<open>None\<close> when the walk meets \<^verbatim>\<open>None\<close> or never ends.
\<close>

partial_function (option) height :: "'a RBTree \<Rightarrow> ref \<Rightarrow> nat option" where
  "height t r =
     (if r = NIL t then Some 0
      else (case r of
              PyNone \<Rightarrow> None
            | Addr a \<Rightarrow>
                Option.bind (height t (left (heap t a))) (\<lambda>hl.
                Option.bind (height t (right (heap t a))) (\<lambda>hr.
                Some (1 + max hl hr)))))"

declare height.simps [code]

section \<open>Well-formed trees\<close>

text \<open>The state that a result carries.\<close>

fun state_of :: "('x, 's) res \<Rightarrow> 's" where
  "state_of (Ok x s) = s"
| "state_of (Raise e s) = s"

text \<open>
  Two trees with the same objects, sentinel and root, whose objects agree on every
  field but the colour.
\<close>

definition same_links :: "'a RBTree \<Rightarrow> 'a RBTree \<Rightarrow> bool" where
  "same_links t t' \<longleftrightarrow>
     fresh t' = fresh t \<and> NIL t' = NIL t \<and> root t' = root t \<and>
     (\<forall>a. val (heap t' a) = val (heap t a) \<and> parent (heap t' a) = parent (heap t a) \<and>
          left (heap t' a) = left (heap t a) \<and> right (heap t' a) = right (heap t a))"

text \<open>
  The references that the descent of \<^verbatim>\<open>insert\<close> for a value \<open>v\<close> holds in \<^verbatim>\<open>current\<close>:
  the root, then the left child of a real node whose value is above \<open>v\<close>, or the right
  child of one whose value is below.
\<close>

inductive on_path :: "'a::linorder RBTree \<Rightarrow> 'a \<Rightarrow> ref \<Rightarrow> bool" for t v where
  start: "on_path t v (root t)"
| go_left: "on_path t v (Addr a) \<Longrightarrow> Addr a \<noteq> NIL t \<Longrightarrow> val (heap t a) = Some w \<Longrightarrow> v < w
            \<Longrightarrow> on_path t v (left (heap t a))"
| go_right: "on_path t v (Addr a) \<Longrightarrow> Addr a \<noteq> NIL t \<Longrightarrow> val (heap t a) = Some w \<Longrightarrow> w < v
            \<Longrightarrow> on_path t v (right (heap t a))"

text \<open>
  The shape of the links: the sentinel is object 0 and its three links point at
  itself; the root is an object; every other object holds a value, has a parent created
  before it, which is the sentinel exactly for the root, and each of its children is
  the sentinel or an object created after it.
\<close>

definition links_ok :: "'a RBTree \<Rightarrow> bool" where
  "links_ok t \<longleftrightarrow>
     NIL t = Addr 0 \<and> 0 < fresh t \<and> (\<exists>r. root t = Addr r \<and> r < fresh t) \<and>
     parent (heap t 0) = Addr 0 \<and> left (heap t 0) = Addr 0 \<and> right (heap t 0) = Addr 0 \<and>
     (\<forall>a. 0 < a \<and> a < fresh t \<longrightarrow>
        val (heap t a) \<noteq> None \<and>
        (\<exists>p. parent (heap t a) = Addr p \<and> p < a \<and> (p = 0 \<longleftrightarrow> root t = Addr a)) \<and>
        (\<exists>l. left (heap t a) = Addr l \<and> (l = 0 \<or> a < l \<and> l < fresh t)) \<and>
        (\<exists>r. right (heap t a) = Addr r \<and> (r = 0 \<or> a < r \<and> r < fresh t)))"

text \<open>Every object but the sentinel is met by the descent for its own value.\<close>

definition all_on_path :: "'a::linorder RBTree \<Rightarrow> bool" where
  "all_on_path t \<longleftrightarrow>
     (\<forall>a. 0 < a \<and> a < fresh t \<longrightarrow> (\<exists>w. val (heap t a) = Some w \<and> on_path t w (Addr a)))"

text \<open>
  What the fix-up loop relies on: the sentinel is BLACK and its links point at itself
  (lines 46 to 49), and going from parent to parent from the working node ends at the
  sentinel.
\<close>

definition sentinel_ok :: "'a RBTree \<Rightarrow> bool" where
  "sentinel_ok t \<longleftrightarrow>
     (\<exists>z. NIL t = Addr z \<and> color (heap t z) = BLACK \<and> parent (heap t z) = Addr z \<and>
          left (heap t z) = Addr z \<and> right (heap t z) = Addr z)"

fun ancestor :: "'a RBTree \<Rightarrow> nat \<Rightarrow> ref \<Rightarrow> ref" where
  "ancestor t 0 r = r"
| "ancestor t (Suc k) r = (case r of PyNone \<Rightarrow> PyNone | Addr a \<Rightarrow> ancestor t k (parent (heap t a)))"

text \<open>
  The loop variables \<^verbatim>\<open>parent\<close> and \<^verbatim>\<open>current\<close> at the head of the descent for \<open>v\<close>:
  either the loop has not run yet, or \<^verbatim>\<open>parent\<close> is a real node on the path and
  \<^verbatim>\<open>current\<close> is its child on the side of \<open>v\<close>.
\<close>

definition descent_at :: "'a::linorder RBTree \<Rightarrow> 'a \<Rightarrow> ref \<Rightarrow> ref \<Rightarrow> bool" where
  "descent_at t v par cur \<longleftrightarrow>
     on_path t v cur \<and>
     (par = NIL t \<and> cur = root t \<or>
      (\<exists>k w. par = Addr k \<and> 0 < k \<and> k < fresh t \<and> on_path t v par \<and>
             val (heap t k) = Some w \<and>
             (v < w \<and> cur = left (heap t k) \<or> w < v \<and> cur = right (heap t k))))"

section \<open>Properties\<close>

subsection \<open>The primitive statements\<close>

lemmas ctrl = bnd_def seq_def ret_def get_def upd_def set_color_def node_parent_parent_def

lemmas prims = ctrl store_def set_left_def set_right_def set_parent_def self_root_def
  set_self_root_def value_lt_def value_gt_def

lemma store_color_fields [simp]:
  "parent (heap (store x (\<lambda>n. n\<lparr>color := c\<rparr>) t) y) = parent (heap t y)"
  "left (heap (store x (\<lambda>n. n\<lparr>color := c\<rparr>) t) y) = left (heap t y)"
  "right (heap (store x (\<lambda>n. n\<lparr>color := c\<rparr>) t) y) = right (heap t y)"
  "val (heap (store x (\<lambda>n. n\<lparr>color := c\<rparr>) t) y) = val (heap t y)"
  "color (heap (store x (\<lambda>n. n\<lparr>color := c\<rparr>) t) y) = (if y = x then c else color (heap t y))"
  by (simp_all add: store_def)

subsection \<open>The rotations\<close>

text \<open>
  Both rotations read \<^verbatim>\<open>self.nil\<close> in their second statement, before any assignment,
  so every call raises \<^verbatim>\<open>AttributeError\<close> and leaves the heap as it found it. This
  holds for every argument, \<^verbatim>\<open>None\<close> included (there the first statement raises).
\<close>

lemma rotate_left_raises: "rotate_left x t = Raise AttributeError t"
  by (cases x) (simp_all add: rotate_left_def bnd_def get_def self_nil_def)

lemma rotate_right_raises: "rotate_right x t = Raise AttributeError t"
  by (cases x) (simp_all add: rotate_right_def bnd_def get_def self_nil_def)

text \<open>
  C9. For every node whose right child is the sentinel, \<^verbatim>\<open>_rotate_left\<close> on it raises
  and the tree it leaves is the tree it was given: no partial update, no normal
  return; the same for \<^verbatim>\<open>_rotate_right\<close> on a node whose left child is the sentinel.
  The exception is the \<^verbatim>\<open>AttributeError\<close> of the lookup \<^verbatim>\<open>self.nil\<close> in the guard of
  lines 147 and 177, which is raised before the guard can take its \<^verbatim>\<open>return\<close>.
\<close>

theorem rotate_at_sentinel_child_raises:
  "(right (heap t a) = NIL t \<longrightarrow> rotate_left (Addr a) t = Raise AttributeError t) \<and>
   (left (heap t a) = NIL t \<longrightarrow> rotate_right (Addr a) t = Raise AttributeError t)"
  by (simp add: rotate_left_raises rotate_right_raises)

theorem rotate_at_sentinel_child_raises_witness:
  "\<exists>t. insert_all [10::int] new_tree = Some (Ok () t) \<and>
       right (heap t 1) = NIL t \<and> rotate_left (Addr 1) t = Raise AttributeError t \<and>
       left (heap t 1) = NIL t \<and> rotate_right (Addr 1) t = Raise AttributeError t"
proof -
  have "case insert_all [10::int] new_tree of
          Some (Ok u t) \<Rightarrow> right (heap t 1) = NIL t \<and> left (heap t 1) = NIL t
        | _ \<Rightarrow> False"
    by code_simp
  then obtain t where t: "insert_all [10::int] new_tree = Some (Ok () t)"
      "right (heap t 1) = NIL t" "left (heap t 1) = NIL t"
    by (auto split: option.splits res.splits)
  with rotate_at_sentinel_child_raises [of t 1] show ?thesis
    by simp
qed

text \<open>
  C5. The claim asks that \<^verbatim>\<open>_rotate_left\<close> on a node whose right child is a real node
  repoints the links and makes that child the root when the node was the root. After
  inserting 10 and 20 the root, object 1, has the real right child 2; rotating it left
  raises \<^verbatim>\<open>AttributeError\<close> and changes nothing, so object 1 is still the root.
\<close>

theorem rotate_left_at_root_raises:
  "\<exists>t. insert_all [10, 20::int] new_tree = Some (Ok () t) \<and>
       root t = Addr 1 \<and> right (heap t 1) = Addr 2 \<and> Addr 2 \<noteq> NIL t \<and>
       rotate_left (Addr 1) t = Raise AttributeError t"
proof -
  have "case insert_all [10, 20::int] new_tree of
          Some (Ok u t) \<Rightarrow> root t = Addr 1 \<and> right (heap t 1) = Addr 2 \<and> Addr 2 \<noteq> NIL t
        | _ \<Rightarrow> False"
    by code_simp
  then show ?thesis
    by (auto split: option.splits res.splits simp: rotate_left_raises)
qed

subsection \<open>The fix-up changes colours only\<close>

text \<open>
  Since no rotation ever gets past its guard, the only assignments that \<^verbatim>\<open>_insert_fixup\<close>
  makes are to \<^verbatim>\<open>color\<close> fields: the links, the values, the root and the sentinel
  reference are the ones it was given, whether it returns or raises.
\<close>

lemma same_links_refl: "same_links t t"
  by (simp add: same_links_def)

lemma same_links_trans: "same_links t t' \<Longrightarrow> same_links t' t'' \<Longrightarrow> same_links t t''"
  by (simp add: same_links_def)

lemma set_color_links: "same_links t (state_of (set_color r c t))"
  by (cases r) (simp_all add: prims same_links_def)

lemma recolor_case_links: "same_links t (state_of (recolor_case node uncle t))"
  by (auto simp: recolor_case_def prims same_links_def split: ref.splits res.splits)

lemma rotate_case_left_raises: "\<exists>e t'. rotate_case_left node t = Raise e t' \<and> same_links t t'"
  by (auto simp: rotate_case_left_def prims same_links_def rotate_left_raises rotate_right_raises
      split: ref.splits res.splits)

lemma rotate_case_right_raises: "\<exists>e t'. rotate_case_right node t = Raise e t' \<and> same_links t t'"
  by (auto simp: rotate_case_right_def prims same_links_def rotate_left_raises rotate_right_raises
      split: ref.splits res.splits)

lemma fixup_body_links: "same_links t (state_of (fixup_body node t))"
proof -
  have a: "\<And>u t. same_links t (state_of (recolor_case node u t))"
    by (rule recolor_case_links)
  have b: "\<And>t. same_links t (state_of (rotate_case_left node t))"
    using rotate_case_left_raises [of node] by (metis state_of.simps(2))
  have c: "\<And>t. same_links t (state_of (rotate_case_right node t))"
    using rotate_case_right_raises [of node] by (metis state_of.simps(2))
  show ?thesis
    using a b c
    by (auto simp: fixup_body_def prims same_links_refl split: ref.splits res.splits)
qed

lemma fixup_test_state: "state_of (fixup_test node t) = t"
  by (auto simp: fixup_test_def prims split: ref.splits)

lemma fixup_while_links:
  assumes "fixup_while node t = Some r"
  shows "same_links t (state_of r)"
proof (rule fixup_while.raw_induct [where P = "\<lambda>node t r. same_links t (state_of r)", OF _ assms],
    goal_cases)
  case (1 f node t r)
  show ?case
  proof (cases "fixup_test node t")
    case (Raise e t')
    with 1(2) fixup_test_state [of node t] show ?thesis
      by (auto simp: same_links_refl)
  next
    case (Ok go t')
    with fixup_test_state [of node t] have t': "t' = t" by simp
    show ?thesis
    proof (cases go)
      case False
      with 1(2) Ok t' show ?thesis by (auto simp: same_links_refl)
    next
      case True
      show ?thesis
      proof (cases "fixup_body node t")
        case (Raise e t'')
        with 1(2) Ok t' True fixup_body_links [of t node] show ?thesis by auto
      next
        case Ok2: (Ok node' t'')
        with 1(2) Ok t' True have "f node' t'' = Some r" by simp
        from 1(1) [OF this] fixup_body_links [of t node] Ok2 show ?thesis
          by (auto intro: same_links_trans)
      qed
    qed
  qed
qed

lemma insert_fixup_links: "insert_fixup node t = Some r \<Longrightarrow> same_links t (state_of r)"
proof -
  assume a: "insert_fixup node t = Some r"
  have fin: "\<And>t'. same_links t' (state_of (bnd self_root (\<lambda>r. set_color r BLACK) t'))"
    by (auto simp: prims same_links_def split: ref.splits)
  from a show ?thesis
    by (auto simp: insert_fixup_def split: option.splits res.splits
        dest!: fixup_while_links intro: same_links_trans [OF _ fin])
qed

lemma links_ok_same: "same_links t t' \<Longrightarrow> links_ok t \<Longrightarrow> links_ok t'"
  by (simp add: links_ok_def same_links_def)

lemma on_path_same: "on_path t v c \<Longrightarrow> same_links t t' \<Longrightarrow> on_path t' v c"
proof (induction rule: on_path.induct)
  case start
  have "on_path t' v (root t')" by (rule on_path.start)
  with start show ?case by (simp add: same_links_def)
next
  case (go_left a w)
  then have "on_path t' v (left (heap t' a))"
    by (intro on_path.go_left [where w = w]) (simp_all add: same_links_def)
  with go_left.prems show ?case by (simp add: same_links_def)
next
  case (go_right a w)
  then have "on_path t' v (right (heap t' a))"
    by (intro on_path.go_right [where w = w]) (simp_all add: same_links_def)
  with go_right.prems show ?case by (simp add: same_links_def)
qed

lemma all_on_path_same: "same_links t t' \<Longrightarrow> all_on_path t \<Longrightarrow> all_on_path t'"
  unfolding all_on_path_def
  by (metis on_path_same same_links_def)

subsection \<open>The descent\<close>

lemma links_ok_empty: "links_ok t \<Longrightarrow> root t = Addr 0 \<Longrightarrow> fresh t = 1"
proof (rule ccontr)
  assume ok: "links_ok t" and r: "root t = Addr 0" and n: "fresh t \<noteq> 1"
  from ok n have "0 < (1::nat) \<and> 1 < fresh t" by (auto simp: links_ok_def)
  with ok have "\<exists>p. parent (heap t 1) = Addr p \<and> p < 1 \<and> (p = 0 \<longleftrightarrow> root t = Addr 1)"
    unfolding links_ok_def by blast
  with r show False by auto
qed

lemma on_path_alloc: "on_path t v c \<Longrightarrow> links_ok t \<Longrightarrow> \<exists>b<fresh t. c = Addr b"
proof (induction rule: on_path.induct)
  case start
  then show ?case by (auto simp: links_ok_def)
next
  case (go_left a w)
  then obtain "0 < a" "a < fresh t" by (auto simp: links_ok_def)
  with go_left.prems show ?case unfolding links_ok_def by (metis)
next
  case (go_right a w)
  then obtain "0 < a" "a < fresh t" by (auto simp: links_ok_def)
  with go_right.prems show ?case unfolding links_ok_def by (metis)
qed

lemma descend_spec:
  assumes "descend v par cur t = Some r"
  shows "links_ok t \<longrightarrow> descent_at t v par cur \<longrightarrow>
    (r = Ok Returned t \<and> (\<exists>a. 0 < a \<and> a < fresh t \<and> val (heap t a) = Some v)) \<or>
    (\<exists>p. r = Ok (Fell_through p) t \<and> descent_at t v p (Addr 0))"
proof (rule descend.raw_induct [where P = "\<lambda>v par cur t r. links_ok t \<longrightarrow> descent_at t v par cur \<longrightarrow>
    (r = Ok Returned t \<and> (\<exists>a. 0 < a \<and> a < fresh t \<and> val (heap t a) = Some v)) \<or>
    (\<exists>p. r = Ok (Fell_through p) t \<and> descent_at t v p (Addr 0))", OF _ assms], goal_cases)
  case (1 f v par cur t r)
  show ?case
  proof (intro impI)
    assume ok: "links_ok t" and at: "descent_at t v par cur"
    from ok have nil: "NIL t = Addr 0" by (simp add: links_ok_def)
    from at have path: "on_path t v cur" by (simp add: descent_at_def)
    from on_path_alloc [OF path ok] obtain b where b: "cur = Addr b" "b < fresh t" by blast
    show "(r = Ok Returned t \<and> (\<exists>a. 0 < a \<and> a < fresh t \<and> val (heap t a) = Some v)) \<or>
      (\<exists>p. r = Ok (Fell_through p) t \<and> descent_at t v p (Addr 0))"
    proof (cases "b = 0")
      case True
      with 1(2) b nil at show ?thesis by auto
    next
      case False
      with ok b obtain w where w: "val (heap t b) = Some w"
        unfolding links_ok_def by (metis not_None_eq neq0_conv)
      from False b have pos: "0 < b" by simp
      consider "v < w" | "w < v" | "v = w" by (metis less_linear)
      then show ?thesis
      proof cases
        case 1
        have at': "descent_at t v (Addr b) (left (heap t b))"
          unfolding descent_at_def using 1 w pos b path nil
          by (auto intro: on_path.go_left)
        from \<open>(if cur \<noteq> NIL t then _ else _) = Some r\<close> 1 w b nil False
        have "f v (Addr b) (left (heap t b)) t = Some r"
          by (simp add: prims)
        from \<open>\<And>a b c d y. f a b c d = Some y \<Longrightarrow> _\<close> [OF this] ok at' show ?thesis by simp
      next
        case 2
        have at': "descent_at t v (Addr b) (right (heap t b))"
          unfolding descent_at_def using 2 w pos b path nil
          by (auto intro: on_path.go_right)
        from 2 have "\<not> v < w" by simp
        with \<open>(if cur \<noteq> NIL t then _ else _) = Some r\<close> 2 w b nil False
        have "f v (Addr b) (right (heap t b)) t = Some r"
          by (simp add: prims)
        from \<open>\<And>a b c d y. f a b c d = Some y \<Longrightarrow> _\<close> [OF this] ok at' show ?thesis by simp
      next
        case 3
        from \<open>(if cur \<noteq> NIL t then _ else _) = Some r\<close> 3 w b nil False
        have "r = Ok Returned t" by (simp add: prims)
        with 3 w pos b show ?thesis by auto
      qed
    qed
  qed
qed

lemma on_path_descend:
  "on_path t v c \<Longrightarrow> \<exists>p. descend v (NIL t) (root t) t = descend v p c t"
proof (induction rule: on_path.induct)
  case start
  show ?case by blast
next
  case (go_left a w)
  then obtain p where p: "descend v (NIL t) (root t) t = descend v p (Addr a) t" by blast
  have "descend v p (Addr a) t = descend v (Addr a) (left (heap t a)) t"
    using go_left.hyps by (subst descend.simps) (simp add: prims)
  with p show ?case by metis
next
  case (go_right a w)
  then obtain p where p: "descend v (NIL t) (root t) t = descend v p (Addr a) t" by blast
  from go_right.hyps have "\<not> v < w" by simp
  then have "descend v p (Addr a) t = descend v (Addr a) (right (heap t a)) t"
    using go_right.hyps by (subst descend.simps) (simp add: prims)
  with p show ?case by metis
qed

lemma descend_found:
  assumes "on_path t v (Addr a)" and "Addr a \<noteq> NIL t" and "val (heap t a) = Some v"
  shows "descend v (NIL t) (root t) t = Some (Ok Returned t)"
proof -
  from on_path_descend [OF assms(1)] obtain p
    where "descend v (NIL t) (root t) t = descend v p (Addr a) t" by blast
  also have "\<dots> = Some (Ok Returned t)"
    using assms(2,3) by (subst descend.simps) (simp add: prims)
  finally show ?thesis .
qed


lemma descend_total:
  assumes "links_ok t" and "b < fresh t"
  shows "\<exists>r. descend v par (Addr b) t = Some r"
  using assms(2)
proof (induction "fresh t - b" arbitrary: b par rule: less_induct)
  case less
  from assms(1) have nil: "NIL t = Addr 0" by (simp add: links_ok_def)
  show ?case
  proof (cases "b = 0")
    case True
    with nil show ?thesis by (subst descend.simps) simp
  next
    case False
    with assms(1) less.prems obtain w l r where n: "val (heap t b) = Some w"
      "left (heap t b) = Addr l" "l = 0 \<or> b < l \<and> l < fresh t"
      "right (heap t b) = Addr r" "r = 0 \<or> b < r \<and> r < fresh t"
      unfolding links_ok_def by (metis not_None_eq neq0_conv)
    have sub: "\<exists>r. descend v (Addr b) (Addr c) t = Some r" if "c = 0 \<or> b < c \<and> c < fresh t" for c
    proof (cases "c = 0")
      case True
      with nil show ?thesis by (subst descend.simps) simp
    next
      case False
      with that have "fresh t - c < fresh t - b" "c < fresh t" by auto
      then show ?thesis by (rule less.hyps)
    qed
    consider "v < w" | "\<not> v < w" "w < v" | "\<not> v < w" "\<not> w < v" by blast
    then show ?thesis
    proof cases
      case 1
      with sub [OF n(3)] n nil False show ?thesis
        by (subst descend.simps) (simp add: prims)
    next
      case 2
      with sub [OF n(5)] n nil False show ?thesis
        by (subst descend.simps) (simp add: prims)
    next
      case 3
      with n nil False show ?thesis
        by (subst descend.simps) (simp add: prims)
    qed
  qed
qed

subsection \<open>Attaching the new node\<close>

lemma on_path_kept:
  assumes "on_path t w c" and "links_ok t" and "c \<noteq> Addr 0"
    and "root t' = root t" and "NIL t' = NIL t"
    and "\<forall>a. 0 < a \<and> a < fresh t \<longrightarrow> val (heap t' a) = val (heap t a) \<and>
           (left (heap t' a) = left (heap t a) \<or> left (heap t a) = Addr 0) \<and>
           (right (heap t' a) = right (heap t a) \<or> right (heap t a) = Addr 0)"
  shows "on_path t' w c"
  using assms
proof (induction rule: on_path.induct)
  case start
  have "on_path t' w (root t')" by (rule on_path.start)
  with start show ?case by simp
next
  case (go_left a w')
  from go_left.prems have nil: "NIL t = Addr 0" by (simp add: links_ok_def)
  with go_left.hyps have pos: "0 < a" by auto
  from on_path_alloc [OF go_left.hyps(1) go_left.prems(1)] have lt: "a < fresh t" by simp
  from pos have "on_path t' w (Addr a)" using go_left by simp
  moreover from pos lt go_left.prems go_left.hyps
  have "val (heap t' a) = Some w'" "left (heap t' a) = left (heap t a)" by auto
  moreover have "Addr a \<noteq> NIL t'" using go_left.prems nil pos by simp
  ultimately have "on_path t' w (left (heap t' a))"
    using go_left.hyps by (intro on_path.go_left [where w = w']) simp_all
  then show ?case using \<open>left (heap t' a) = left (heap t a)\<close> by simp
next
  case (go_right a w')
  from go_right.prems have nil: "NIL t = Addr 0" by (simp add: links_ok_def)
  with go_right.hyps have pos: "0 < a" by auto
  from on_path_alloc [OF go_right.hyps(1) go_right.prems(1)] have lt: "a < fresh t" by simp
  from pos have "on_path t' w (Addr a)" using go_right by simp
  moreover from pos lt go_right.prems go_right.hyps
  have "val (heap t' a) = Some w'" "right (heap t' a) = right (heap t a)" by auto
  moreover have "Addr a \<noteq> NIL t'" using go_right.prems nil pos by simp
  ultimately have "on_path t' w (right (heap t' a))"
    using go_right.hyps by (intro on_path.go_right [where w = w']) simp_all
  then show ?case using \<open>right (heap t' a) = right (heap t a)\<close> by simp
qed

lemma attach_root:
  assumes ok: "links_ok t" and r: "root t = Addr 0"
  shows "\<exists>t1. attach v \<lparr>val = Some v, color = RED, parent = PyNone, left = NIL t, right = NIL t\<rparr>
           (NIL t) t = Ok (Addr (fresh t)) t1 \<and> links_ok t1 \<and> all_on_path t1 \<and>
           heap t1 0 = heap t 0"
proof -
  from ok r have n: "fresh t = 1" by (rule links_ok_empty)
  from ok have nil: "NIL t = Addr 0" by (simp add: links_ok_def)
  define t1 where "t1 = t\<lparr>heap := (heap t)(1 := \<lparr>val = Some v, color = RED, parent = Addr 0,
      left = Addr 0, right = Addr 0\<rparr>), fresh := 2, root := Addr 1\<rparr>"
  have a: "attach v \<lparr>val = Some v, color = RED, parent = PyNone, left = NIL t, right = NIL t\<rparr>
           (NIL t) t = Ok (Addr (fresh t)) t1"
    by (simp add: attach_def Let_def prims n nil t1_def numeral_2_eq_2)
  have b: "links_ok t1"
    using ok by (auto simp: links_ok_def t1_def n)
  have "on_path t1 v (root t1)" by (rule on_path.start)
  then have c: "all_on_path t1"
    by (auto simp: all_on_path_def t1_def less_Suc_eq numeral_2_eq_2)
  have d: "heap t1 0 = heap t 0" by (simp add: t1_def)
  from a b c d show ?thesis by blast
qed

lemma attach_child:
  assumes ok: "links_ok t" and k: "0 < k" "k < fresh t" and path: "on_path t v (Addr k)"
    and w: "val (heap t k) = Some w"
    and slot: "v < w \<and> left (heap t k) = Addr 0 \<or> w < v \<and> right (heap t k) = Addr 0"
  shows "\<exists>t1. attach v \<lparr>val = Some v, color = RED, parent = PyNone, left = NIL t, right = NIL t\<rparr>
           (Addr k) t = Ok (Addr (fresh t)) t1 \<and> links_ok t1 \<and>
           (all_on_path t \<longrightarrow> all_on_path t1) \<and> heap t1 0 = heap t 0"
proof -
  from ok have nil: "NIL t = Addr 0" by (simp add: links_ok_def)
  define n where "n = fresh t"
  define h1 where "h1 = (heap t)(n := \<lparr>val = Some v, color = RED, parent = Addr k,
      left = Addr 0, right = Addr 0\<rparr>)"
  define t1 where "t1 = t\<lparr>heap := (if v < w then h1(k := (h1 k)\<lparr>left := Addr n\<rparr>)
                                     else h1(k := (h1 k)\<lparr>right := Addr n\<rparr>)), fresh := Suc n\<rparr>"
  have fresh_n: "fresh t = n" by (simp add: n_def)
  from k have kn: "k \<noteq> n" and k_lt: "k < n" by (simp_all add: n_def)
  have a: "attach v \<lparr>val = Some v, color = RED, parent = PyNone, left = NIL t, right = NIL t\<rparr>
           (Addr k) t = Ok (Addr (fresh t)) t1"
    using k w kn by (simp add: attach_def Let_def prims nil t1_def h1_def fresh_n)
  have root1: "root t1 = root t" and nil1: "NIL t1 = NIL t" and fresh1: "fresh t1 = Suc n"
    by (simp_all add: t1_def)
  have heap_other: "\<And>a. a \<noteq> k \<Longrightarrow> a \<noteq> n \<Longrightarrow> heap t1 a = heap t a"
    by (simp add: t1_def h1_def)
  have heap_n: "heap t1 n = \<lparr>val = Some v, color = RED, parent = Addr k, left = Addr 0, right = Addr 0\<rparr>"
    using kn by (simp add: t1_def h1_def)
  have heap_k: "val (heap t1 k) = val (heap t k)" "parent (heap t1 k) = parent (heap t k)"
    "left (heap t1 k) = (if v < w then Addr n else left (heap t k))"
    "right (heap t1 k) = (if v < w then right (heap t k) else Addr n)"
    using kn by (simp_all add: t1_def h1_def)
  from ok obtain r where r: "root t = Addr r" "r < n" by (auto simp: links_ok_def fresh_n)
  have b: "links_ok t1"
    unfolding links_ok_def
  proof (intro conjI allI impI)
    show "NIL t1 = Addr 0" by (simp add: nil1 nil)
    show "0 < fresh t1" by (simp add: fresh1)
    show "\<exists>r. root t1 = Addr r \<and> r < fresh t1" using r by (simp add: root1 fresh1)
    have "0 \<noteq> k" "0 \<noteq> n" using k k_lt by simp_all
    then have "heap t1 0 = heap t 0" by (simp add: heap_other)
    with ok show "parent (heap t1 0) = Addr 0" "left (heap t1 0) = Addr 0" "right (heap t1 0) = Addr 0"
      by (simp_all add: links_ok_def)
  next
    fix a assume a: "0 < a \<and> a < fresh t1"
    consider "a = n" | "a = k" | "a \<noteq> n" "a \<noteq> k" by blast
    then have "val (heap t1 a) \<noteq> None \<and>
         (\<exists>p. parent (heap t1 a) = Addr p \<and> p < a \<and> (p = 0) = (root t1 = Addr a)) \<and>
         (\<exists>l. left (heap t1 a) = Addr l \<and> (l = 0 \<or> a < l \<and> l < fresh t1)) \<and>
         (\<exists>r. right (heap t1 a) = Addr r \<and> (r = 0 \<or> a < r \<and> r < fresh t1))"
    proof cases
      case 1
      with k k_lt r show ?thesis by (auto simp: heap_n root1 fresh1)
    next
      case 2
      from ok k have "val (heap t k) \<noteq> None \<and>
         (\<exists>p. parent (heap t k) = Addr p \<and> p < k \<and> (p = 0) = (root t = Addr k)) \<and>
         (\<exists>l. left (heap t k) = Addr l \<and> (l = 0 \<or> k < l \<and> l < fresh t)) \<and>
         (\<exists>r. right (heap t k) = Addr r \<and> (r = 0 \<or> k < r \<and> r < fresh t))"
        unfolding links_ok_def by blast
      with 2 k k_lt show ?thesis
        by (auto simp: heap_k root1 fresh1 fresh_n)
    next
      case 3
      with a have "0 < a \<and> a < fresh t" by (simp add: fresh1 fresh_n)
      with ok have "val (heap t a) \<noteq> None \<and>
         (\<exists>p. parent (heap t a) = Addr p \<and> p < a \<and> (p = 0) = (root t = Addr a)) \<and>
         (\<exists>l. left (heap t a) = Addr l \<and> (l = 0 \<or> a < l \<and> l < fresh t)) \<and>
         (\<exists>r. right (heap t a) = Addr r \<and> (r = 0 \<or> a < r \<and> r < fresh t))"
        unfolding links_ok_def by blast
      with 3 show ?thesis
        by (auto simp: heap_other root1 fresh1 fresh_n)
    qed
    then show "val (heap t1 a) \<noteq> None"
      "\<exists>p. parent (heap t1 a) = Addr p \<and> p < a \<and> (p = 0) = (root t1 = Addr a)"
      "\<exists>l. left (heap t1 a) = Addr l \<and> (l = 0 \<or> a < l \<and> l < fresh t1)"
      "\<exists>r. right (heap t1 a) = Addr r \<and> (r = 0 \<or> a < r \<and> r < fresh t1)"
      by blast+
  qed
  have kept: "\<And>u c. on_path t u c \<Longrightarrow> c \<noteq> Addr 0 \<Longrightarrow> on_path t1 u c"
  proof (rule on_path_kept [OF _ ok _ root1 nil1])
    fix u c
    show "\<forall>a. 0 < a \<and> a < fresh t \<longrightarrow> val (heap t1 a) = val (heap t a) \<and>
           (left (heap t1 a) = left (heap t a) \<or> left (heap t a) = Addr 0) \<and>
           (right (heap t1 a) = right (heap t a) \<or> right (heap t a) = Addr 0)"
    proof (intro allI impI)
      fix a assume "0 < a \<and> a < fresh t"
      then have "a \<noteq> n" by (simp add: fresh_n)
      then show "val (heap t1 a) = val (heap t a) \<and>
           (left (heap t1 a) = left (heap t a) \<or> left (heap t a) = Addr 0) \<and>
           (right (heap t1 a) = right (heap t a) \<or> right (heap t a) = Addr 0)"
        using slot by (cases "a = k") (auto simp: heap_k heap_other)
    qed
  qed
  have c: "all_on_path t1" if all: "all_on_path t"
    unfolding all_on_path_def
  proof (intro allI impI)
    fix a assume a: "0 < a \<and> a < fresh t1"
    show "\<exists>u. val (heap t1 a) = Some u \<and> on_path t1 u (Addr a)"
    proof (cases "a = n")
      case True
      from kept [OF path] k have pk: "on_path t1 v (Addr k)" by simp
      have nk: "Addr k \<noteq> NIL t1" using k by (simp add: nil1 nil)
      have "on_path t1 v (Addr n)"
      proof (cases "v < w")
        case lt: True
        have "on_path t1 v (left (heap t1 k))"
          by (rule on_path.go_left [OF pk nk _ lt]) (simp add: heap_k w)
        with lt show ?thesis by (simp add: heap_k)
      next
        case False
        with slot have gt: "w < v" by auto
        have "on_path t1 v (right (heap t1 k))"
          by (rule on_path.go_right [OF pk nk _ gt]) (simp add: heap_k w)
        with False show ?thesis by (simp add: heap_k)
      qed
      with True show ?thesis by (simp add: heap_n)
    next
      case False
      with a have a': "0 < a \<and> a < fresh t" by (simp add: fresh1 fresh_n)
      with all obtain u where u: "val (heap t a) = Some u" "on_path t u (Addr a)"
        unfolding all_on_path_def by blast
      from kept [OF u(2)] a' have "on_path t1 u (Addr a)" by simp
      moreover have "val (heap t1 a) = Some u"
        using u False by (cases "a = k") (simp_all add: heap_k heap_other)
      ultimately show ?thesis by blast
    qed
  qed
  have d: "heap t1 0 = heap t 0" using k k_lt by (simp add: heap_other)
  from a b c d show ?thesis by blast
qed

lemma descent_at_start: "descent_at t v (NIL t) (root t)"
  by (simp add: descent_at_def on_path.start)

lemma attach_ok:
  assumes ok: "links_ok t" and at: "descent_at t v p (Addr 0)"
  shows "\<exists>t1. attach v \<lparr>val = Some v, color = RED, parent = PyNone, left = NIL t, right = NIL t\<rparr>
           p t = Ok (Addr (fresh t)) t1 \<and> links_ok t1 \<and> (all_on_path t \<longrightarrow> all_on_path t1) \<and>
           heap t1 0 = heap t 0"
proof -
  from at consider "p = NIL t" "root t = Addr 0"
    | k w where "p = Addr k" "0 < k" "k < fresh t" "on_path t v (Addr k)" "val (heap t k) = Some w"
        "v < w \<and> left (heap t k) = Addr 0 \<or> w < v \<and> right (heap t k) = Addr 0"
    unfolding descent_at_def by (metis)
  then show ?thesis
  proof cases
    case 1
    with attach_root [OF ok 1(2), of v] show ?thesis by auto
  next
    case 2
    with attach_child [OF ok 2(2-6)] show ?thesis by auto
  qed
qed

subsection \<open>Every reachable tree is well formed\<close>

lemma insert_rb_inv:
  assumes ins: "insert_rb v t = Some r" and ok: "links_ok t" and all: "all_on_path t"
  shows "links_ok (state_of r) \<and> all_on_path (state_of r)"
proof -
  from ins obtain d where d: "descend v (NIL t) (root t) t = Some d"
    by (auto simp: insert_rb_def Let_def split: option.splits)
  from descend_spec [OF d] ok descent_at_start [of t v]
  consider "d = Ok Returned t" | p where "d = Ok (Fell_through p) t" "descent_at t v p (Addr 0)"
    by blast
  then show ?thesis
  proof cases
    case 1
    with ins d have "r = Ok () t" by (simp add: insert_rb_def Let_def)
    with ok all show ?thesis by simp
  next
    case 2
    from attach_ok [OF ok 2(2)] obtain t1 where t1:
      "attach v \<lparr>val = Some v, color = RED, parent = PyNone, left = NIL t, right = NIL t\<rparr>
           p t = Ok (Addr (fresh t)) t1" "links_ok t1" "all_on_path t1"
      using all by blast
    with ins d 2 have "insert_fixup (Addr (fresh t)) t1 = Some r"
      by (simp add: insert_rb_def Let_def)
    then have "same_links t1 (state_of r)" by (rule insert_fixup_links)
    with t1 show ?thesis by (blast intro: links_ok_same all_on_path_same)
  qed
qed

lemma new_tree_inv: "links_ok new_tree \<and> all_on_path new_tree"
  by (auto simp: links_ok_def all_on_path_def new_tree_def)

lemma reachable_inv: "reachable t \<Longrightarrow> links_ok t \<and> all_on_path t"
proof (induction rule: reachable.induct)
  case init
  show ?case by (rule new_tree_inv)
next
  case (returned t v u t')
  with insert_rb_inv [of v t "Ok u t'"] show ?case by simp
next
  case (raised t v e t')
  with insert_rb_inv [of v t "Raise e t'"] show ?case by simp
qed

lemma insert_each_reachable: "insert_each vs t = Some t' \<Longrightarrow> reachable t \<Longrightarrow> reachable t'"
proof (induction vs arbitrary: t)
  case Nil
  then show ?case by simp
next
  case (Cons v vs)
  then show ?case
    by (auto split: option.splits res.splits intro: reachable.returned reachable.raised)
qed

lemma insert_all_reachable:
  "insert_all vs t = Some r \<Longrightarrow> reachable t \<Longrightarrow> reachable (state_of r)"
proof (induction vs arbitrary: t)
  case Nil
  then show ?case by auto
next
  case (Cons v vs)
  then show ?case
    by (auto split: option.splits res.splits intro: reachable.returned reachable.raised)
qed

text \<open>
  C10. In every tree that \<^verbatim>\<open>RBTree()\<close> followed by calls of \<^verbatim>\<open>insert\<close> can leave
  (whether the calls returned or raised), the sentinel is object 0 and its \<^verbatim>\<open>parent\<close>,
  \<^verbatim>\<open>left\<close> and \<^verbatim>\<open>right\<close> are the sentinel itself; the root is an object whose parent
  is the sentinel; no object has \<^verbatim>\<open>None\<close> as its parent, so the test
  \<^verbatim>\<open>pivot_parent.parent is None\<close> of lines 157 and 187 is false at every object; and
  every object that is neither the sentinel nor the root has a real node as its parent.
\<close>

theorem no_parent_is_None:
  "reachable t \<Longrightarrow>
     NIL t = Addr 0 \<and>
     parent (heap t 0) = NIL t \<and> left (heap t 0) = NIL t \<and> right (heap t 0) = NIL t \<and>
     (\<exists>r. root t = Addr r \<and> r < fresh t \<and> parent (heap t r) = NIL t) \<and>
     (\<forall>a. a < fresh t \<longrightarrow> parent (heap t a) \<noteq> PyNone) \<and>
     (\<forall>a. 0 < a \<and> a < fresh t \<and> root t \<noteq> Addr a \<longrightarrow>
          (\<exists>p. parent (heap t a) = Addr p \<and> 0 < p \<and> p < fresh t))"
proof -
  assume "reachable t"
  then have ok: "links_ok t" by (simp add: reachable_inv)
  then have nil: "NIL t = Addr 0" and s: "parent (heap t 0) = Addr 0" "left (heap t 0) = Addr 0"
    "right (heap t 0) = Addr 0" by (simp_all add: links_ok_def)
  from ok obtain r where r: "root t = Addr r" "r < fresh t" by (auto simp: links_ok_def)
  have node: "\<exists>p. parent (heap t a) = Addr p \<and> p < a \<and> (p = 0 \<longleftrightarrow> root t = Addr a)"
    if "0 < a" "a < fresh t" for a
    using ok that unfolding links_ok_def by blast
  have root_parent: "parent (heap t r) = Addr 0"
  proof (cases "r = 0")
    case True with s show ?thesis by simp
  next
    case False with node [of r] r show ?thesis by auto
  qed
  have a1: "\<forall>a. a < fresh t \<longrightarrow> parent (heap t a) \<noteq> PyNone"
  proof (intro allI impI)
    fix a assume "a < fresh t"
    then show "parent (heap t a) \<noteq> PyNone"
      using node [of a] s by (cases "a = 0") auto
  qed
  have a2: "\<forall>a. 0 < a \<and> a < fresh t \<and> root t \<noteq> Addr a \<longrightarrow>
          (\<exists>p. parent (heap t a) = Addr p \<and> 0 < p \<and> p < fresh t)"
  proof (intro allI impI)
    fix a assume a: "0 < a \<and> a < fresh t \<and> root t \<noteq> Addr a"
    with node [of a] obtain p where "parent (heap t a) = Addr p" "p < a" "p \<noteq> 0" by auto
    with a show "\<exists>p. parent (heap t a) = Addr p \<and> 0 < p \<and> p < fresh t" by auto
  qed
  from nil s r root_parent a1 a2 show ?thesis by simp
qed

theorem no_parent_is_None_witness:
  "\<exists>t. insert_each [10, 20, 30::int] new_tree = Some t \<and> reachable t \<and>
       fresh t = 4 \<and> NIL t = Addr 0 \<and> root t = Addr 1 \<and>
       parent (heap t 0) = NIL t \<and> left (heap t 0) = NIL t \<and> right (heap t 0) = NIL t \<and>
       parent (heap t 1) = NIL t \<and>
       parent (heap t 3) \<noteq> PyNone \<and>
       (\<exists>p. parent (heap t 3) = Addr p \<and> 0 < p \<and> p < fresh t)"
proof -
  have "case insert_each [10, 20, 30::int] new_tree of
          Some t \<Rightarrow> fresh t = 4 \<and> root t = Addr 1
        | None \<Rightarrow> False"
    by code_simp
  then obtain t where t: "insert_each [10, 20, 30::int] new_tree = Some t"
      "fresh t = 4" "root t = Addr 1"
    by (auto split: option.splits)
  from t(1) have r: "reachable t" by (rule insert_each_reachable) (rule reachable.init)
  from no_parent_is_None [OF r] t r show ?thesis by auto
qed

text \<open>
  C4. In every such tree, inserting a value that one of the objects other than the
  sentinel holds returns normally and leaves the whole state as it was: the same
  objects with the same values, colours and links, the same root and sentinel.
\<close>

theorem insert_present_is_noop:
  "reachable t \<Longrightarrow> 0 < a \<Longrightarrow> a < fresh t \<Longrightarrow> val (heap t a) = Some v
   \<Longrightarrow> insert_rb v t = Some (Ok () t)"
proof -
  assume r: "reachable t" and a: "0 < a" "a < fresh t" and v: "val (heap t a) = Some v"
  from reachable_inv [OF r] have ok: "links_ok t" and all: "all_on_path t" by simp_all
  from all a v have "on_path t v (Addr a)" by (auto simp: all_on_path_def)
  moreover from ok a have "Addr a \<noteq> NIL t" by (simp add: links_ok_def)
  ultimately have "descend v (NIL t) (root t) t = Some (Ok Returned t)"
    using v by (rule descend_found)
  then show ?thesis by (simp add: insert_rb_def Let_def)
qed


theorem insert_present_is_noop_witness:
  "\<exists>t. insert_each [10, 20, 30::int] new_tree = Some t \<and> reachable t \<and>
       (0::nat) < 2 \<and> 2 < fresh t \<and> val (heap t 2) = Some 20 \<and>
       insert_rb 20 t = Some (Ok () t)"
proof -
  have "case insert_each [10, 20, 30::int] new_tree of
          Some t \<Rightarrow> 2 < fresh t \<and> val (heap t 2) = Some 20
        | None \<Rightarrow> False"
    by code_simp
  then obtain t where t: "insert_each [10, 20, 30::int] new_tree = Some t"
      "2 < fresh t" "val (heap t 2) = Some 20"
    by (auto split: option.splits)
  from t(1) have r: "reachable t" by (rule insert_each_reachable) (rule reachable.init)
  from insert_present_is_noop [OF r _ t(2,3)] t r show ?thesis by simp
qed

subsection \<open>Termination of the fix-up loop\<close>

lemma recolor_case_result:
  assumes "parent (heap t a) = Addr p" and "parent (heap t p) = Addr g"
  shows "recolor_case (Addr a) (Addr u) t =
     Ok (Addr g) (store g (\<lambda>n. n\<lparr>color := RED\<rparr>) (store u (\<lambda>n. n\<lparr>color := BLACK\<rparr>)
                  (store p (\<lambda>n. n\<lparr>color := BLACK\<rparr>) t)))"
  using assms by (simp add: recolor_case_def ctrl)

lemma fixup_body_unfold:
  assumes "parent (heap t a) = Addr p" and "parent (heap t p) = Addr g"
  shows "fixup_body (Addr a) t =
    (case (if left (heap t g) = Addr p then right (heap t g) else left (heap t g)) of
       PyNone \<Rightarrow> Raise AttributeError t
     | Addr u \<Rightarrow>
         if color (heap t u) = RED then recolor_case (Addr a) (Addr u) t
         else if left (heap t g) = Addr p then rotate_case_left (Addr a) t
         else rotate_case_right (Addr a) t)"
proof (cases "left (heap t g) = Addr p")
  case True
  with assms show ?thesis
    by (simp add: fixup_body_def ctrl split: ref.splits)
next
  case False
  then have "Addr p \<noteq> left (heap t g)" by auto
  with False assms show ?thesis
    by (simp add: fixup_body_def ctrl split: ref.splits)
qed

lemma fixup_step:
  assumes z: "NIL t = Addr z" "color (heap t z) = BLACK" "parent (heap t z) = Addr z"
      "left (heap t z) = Addr z" "right (heap t z) = Addr z"
    and test: "fixup_test node t = Ok True t"
  shows "(\<exists>e t'. fixup_body node t = Raise e t') \<or>
         (\<exists>a p g t'. node = Addr a \<and> parent (heap t a) = Addr p \<and> p \<noteq> z \<and>
            parent (heap t p) = Addr g \<and> fixup_body node t = Ok (Addr g) t' \<and>
            same_links t t' \<and> color (heap t' z) = BLACK)"
proof -
  from test obtain a p where a: "node = Addr a" "parent (heap t a) = Addr p" "color (heap t p) = RED"
    by (auto simp: fixup_test_def ctrl split: ref.splits)
  with z have pz: "p \<noteq> z" by auto
  show ?thesis
  proof (cases "parent (heap t p)")
    case PyNone
    with a show ?thesis by (simp add: fixup_body_def ctrl)
  next
    case (Addr g)
    define uncle where "uncle = (if left (heap t g) = Addr p then right (heap t g) else left (heap t g))"
    note body = fixup_body_unfold [OF a(2) Addr, folded uncle_def]
    show ?thesis
    proof (cases uncle)
      case PyNone
      with body a show ?thesis by simp
    next
      case u: (Addr u)
      show ?thesis
      proof (cases "color (heap t u) = RED")
        case False
        with body u a rotate_case_left_raises [of node t] rotate_case_right_raises [of node t]
        show ?thesis by auto
      next
        case True
        with z have uz: "u \<noteq> z" by auto
        have gz: "g \<noteq> z"
        proof
          assume "g = z"
          with z u pz uz show False by (auto simp: uncle_def split: if_splits)
        qed
        define t' where "t' = store g (\<lambda>n. n\<lparr>color := RED\<rparr>) (store u (\<lambda>n. n\<lparr>color := BLACK\<rparr>)
                  (store p (\<lambda>n. n\<lparr>color := BLACK\<rparr>) t))"
        from recolor_case_result [OF a(2) Addr, of u]
        have rc: "recolor_case (Addr a) (Addr u) t = Ok (Addr g) t'" by (simp add: t'_def)
        from pz uz gz z have "color (heap t' z) = BLACK" by (simp add: t'_def)
        moreover from recolor_case_links [of t "Addr a" "Addr u"] rc have "same_links t t'" by simp
        moreover from body u True rc a have "fixup_body node t = Ok (Addr g) t'"
          by simp
        ultimately show ?thesis using a Addr pz by blast
      qed
    qed
  qed
qed

lemma ancestor_same: "same_links t t' \<Longrightarrow> ancestor t' k r = ancestor t k r"
  by (induction k arbitrary: r) (auto simp: same_links_def split: ref.splits)

lemma fixup_while_total:
  assumes "sentinel_ok t" and "ancestor t k node = NIL t"
  shows "\<exists>r. fixup_while node t = Some r"
  using assms
proof (induction k arbitrary: node t rule: less_induct)
  case (less k)
  from less.prems(1) obtain z where z: "NIL t = Addr z" "color (heap t z) = BLACK"
    "parent (heap t z) = Addr z" "left (heap t z) = Addr z" "right (heap t z) = Addr z"
    unfolding sentinel_ok_def by blast
  show ?case
  proof (cases "fixup_test node t")
    case (Raise e t')
    then show ?thesis by (subst fixup_while.simps) simp
  next
    case (Ok go t0)
    with fixup_test_state [of node t] have t0: "t0 = t" by simp
    show ?thesis
    proof (cases go)
      case False
      with Ok show ?thesis by (subst fixup_while.simps) simp
    next
      case True
      with Ok t0 have test: "fixup_test node t = Ok True t" by simp
      from fixup_step [OF z test] consider
        e t' where "fixup_body node t = Raise e t'"
        | a p g t' where "node = Addr a" "parent (heap t a) = Addr p" "p \<noteq> z"
            "parent (heap t p) = Addr g" "fixup_body node t = Ok (Addr g) t'"
            "same_links t t'" "color (heap t' z) = BLACK"
        by blast
      then show ?thesis
      proof cases
        case 1
        with test show ?thesis by (subst fixup_while.simps) simp
      next
        case 2
        have az: "a \<noteq> z" using 2 z by auto
        from less.prems(2) 2 z az obtain k' where k': "k = Suc (Suc k')"
          by (cases k; cases "k - 1") auto
        with less.prems(2) 2 z have "ancestor t k' (Addr g) = NIL t" by simp
        moreover from 2(6) have "NIL t' = NIL t" by (simp add: same_links_def)
        ultimately have anc: "ancestor t' k' (Addr g) = NIL t'"
          using ancestor_same [OF 2(6), of k' "Addr g"] by simp
        from 2(6,7) z have "sentinel_ok t'"
          by (auto simp: sentinel_ok_def same_links_def)
        from less.IH [OF _ this anc] k' obtain r where "fixup_while (Addr g) t' = Some r" by auto
        with test 2 show ?thesis by (subst fixup_while.simps) simp
      qed
    qed
  qed
qed

text \<open>
  C8. The loop of lines 97 to 134 ends, by leaving the loop or by raising, from every
  state in which the sentinel is BLACK with its links at itself and the parent links
  lead from the working node to the sentinel; every tree that satisfies the red-black
  invariants is in such a state when \<^verbatim>\<open>insert\<close> starts the loop. The sentinel being
  BLACK is what stops the walk: an iteration that goes on moves the node to its
  grandparent, which is not the sentinel, and leaves the sentinel BLACK.
\<close>

theorem fixup_loop_terminates:
  assumes "sentinel_ok t" and "ancestor t k node = NIL t"
  shows "\<exists>r. fixup_while node t = Some r"
  using assms by (rule fixup_while_total)

theorem fixup_loop_terminates_witness:
  "\<exists>t3 t4 r. insert_all [20, 10, 25::int] new_tree = Some (Ok () t3) \<and>
       attach 5 \<lparr>val = Some 5, color = RED, parent = PyNone, left = NIL t3, right = NIL t3\<rparr>
         (Addr 2) t3 = Ok (Addr 4) t4 \<and>
       sentinel_ok t4 \<and> ancestor t4 3 (Addr 4) = NIL t4 \<and>
       fixup_while (Addr 4) t4 = Some r"
proof -
  have "case insert_all [20, 10, 25::int] new_tree of
          Some (Ok u t3) \<Rightarrow>
            (case attach 5 \<lparr>val = Some 5, color = RED, parent = PyNone, left = NIL t3,
                    right = NIL t3\<rparr> (Addr 2) t3 of
               Ok n t4 \<Rightarrow> n = Addr 4 \<and> NIL t4 = Addr 0 \<and> color (heap t4 0) = BLACK \<and>
                 parent (heap t4 0) = Addr 0 \<and> left (heap t4 0) = Addr 0 \<and>
                 right (heap t4 0) = Addr 0 \<and> ancestor t4 3 (Addr 4) = NIL t4
             | _ \<Rightarrow> False)
        | _ \<Rightarrow> False"
    by code_simp
  then obtain t3 t4 where t: "insert_all [20, 10, 25::int] new_tree = Some (Ok () t3)"
      "attach 5 \<lparr>val = Some 5, color = RED, parent = PyNone, left = NIL t3, right = NIL t3\<rparr>
         (Addr 2) t3 = Ok (Addr 4) t4"
      "NIL t4 = Addr 0" "color (heap t4 0) = BLACK" "parent (heap t4 0) = Addr 0"
      "left (heap t4 0) = Addr 0" "right (heap t4 0) = Addr 0"
      "ancestor t4 3 (Addr 4) = NIL t4"
    by (auto split: option.splits res.splits)
  then have s: "sentinel_ok t4" by (auto simp: sentinel_ok_def)
  from fixup_loop_terminates [OF s t(8)] t(1,2,8) s show ?thesis by blast
qed

text \<open>
  With well-formed links and a BLACK sentinel the whole call ends: the descent ends
  because every child was created after its parent, and the loop ends by the lemma
  above.
\<close>

lemma ancestor_reaches_sentinel:
  "links_ok t \<Longrightarrow> a < fresh t \<Longrightarrow> a \<le> k \<Longrightarrow> ancestor t k (Addr a) = Addr 0"
proof (induction k arbitrary: a)
  case 0
  then show ?case by simp
next
  case (Suc k)
  show ?case
  proof (cases "a = 0")
    case True
    with Suc show ?thesis by (simp add: links_ok_def)
  next
    case False
    with Suc.prems obtain p where p: "parent (heap t a) = Addr p" "p < a"
      unfolding links_ok_def by (metis neq0_conv)
    with Suc.prems have "p < fresh t" "p \<le> k" by auto
    with Suc.IH [OF Suc.prems(1)] p show ?thesis by simp
  qed
qed

lemma insert_rb_total:
  assumes ok: "links_ok t" and black: "sentinel_black t"
  shows "\<exists>r. insert_rb v t = Some r"
proof -
  from ok have nil: "NIL t = Addr 0" by (simp add: links_ok_def)
  from ok obtain r0 where "root t = Addr r0" "r0 < fresh t" by (auto simp: links_ok_def)
  with descend_total [OF ok, of r0 v "NIL t"]
  obtain d where d: "descend v (NIL t) (root t) t = Some d" by auto
  from descend_spec [OF d] ok descent_at_start [of t v]
  consider "d = Ok Returned t" | p where "d = Ok (Fell_through p) t" "descent_at t v p (Addr 0)"
    by blast
  then show ?thesis
  proof cases
    case 1
    with d show ?thesis by (simp add: insert_rb_def Let_def)
  next
    case 2
    from attach_ok [OF ok 2(2)] obtain t1 where t1:
      "attach v \<lparr>val = Some v, color = RED, parent = PyNone, left = NIL t, right = NIL t\<rparr>
           p t = Ok (Addr (fresh t)) t1" "links_ok t1" "heap t1 0 = heap t 0"
      by blast
    from t1(2) have s: "NIL t1 = Addr 0" "parent (heap t1 0) = Addr 0" "left (heap t1 0) = Addr 0"
      "right (heap t1 0) = Addr 0" by (simp_all add: links_ok_def)
    from black nil t1(3) have "color (heap t1 0) = BLACK" by (simp add: sentinel_black_def)
    with s have sok: "sentinel_ok t1" by (auto simp: sentinel_ok_def)
    have "fresh t1 = Suc (fresh t)" using t1(1)
      by (auto simp: attach_def Let_def prims split: if_splits res.splits option.splits ref.splits)
    then have "ancestor t1 (fresh t) (Addr (fresh t)) = NIL t1"
      using ancestor_reaches_sentinel [OF t1(2), of "fresh t" "fresh t"] s by simp
    from fixup_while_total [OF sok this] obtain r where "fixup_while (Addr (fresh t)) t1 = Some r"
      by blast
    with d 2 t1(1) show ?thesis
      by (auto simp: insert_rb_def Let_def insert_fixup_def split: res.splits)
  qed
qed

subsection \<open>Insertions that need a rotation\<close>

text \<open>
  C1. The claim asks that invariants 2 to 6 hold after every call of \<^verbatim>\<open>insert\<close>.
  Inserting 10, 20 and 30 into a new tree: the third call recolours 20 BLACK and the
  root 10 RED (lines 132, 133), then raises \<^verbatim>\<open>AttributeError\<close> in \<^verbatim>\<open>_rotate_left\<close>
  (line 134), so line 136 is never reached and the tree is left with a RED root.
\<close>

theorem third_ascending_insert_leaves_red_root:
  "\<exists>t. insert_all [10, 20, 30::int] new_tree = Some (Raise AttributeError t) \<and>
       NIL t = Addr 0 \<and> root t = Addr 1 \<and> \<not> root_black t \<and>
       objects t =
         [\<lparr>val = None, color = BLACK, parent = Addr 0, left = Addr 0, right = Addr 0\<rparr>,
          \<lparr>val = Some 10, color = RED, parent = Addr 0, left = Addr 0, right = Addr 2\<rparr>,
          \<lparr>val = Some 20, color = BLACK, parent = Addr 1, left = Addr 0, right = Addr 3\<rparr>,
          \<lparr>val = Some 30, color = RED, parent = Addr 2, left = Addr 0, right = Addr 0\<rparr>]"
proof -
  have "case insert_all [10, 20, 30::int] new_tree of
          Some (Raise e t) \<Rightarrow> e = AttributeError \<and>
            NIL t = Addr 0 \<and> root t = Addr 1 \<and> \<not> root_black t \<and>
            objects t =
         [\<lparr>val = None, color = BLACK, parent = Addr 0, left = Addr 0, right = Addr 0\<rparr>,
          \<lparr>val = Some 10, color = RED, parent = Addr 0, left = Addr 0, right = Addr 2\<rparr>,
          \<lparr>val = Some 20, color = BLACK, parent = Addr 1, left = Addr 0, right = Addr 3\<rparr>,
          \<lparr>val = Some 30, color = RED, parent = Addr 2, left = Addr 0, right = Addr 0\<rparr>]
        | _ \<Rightarrow> False"
    by code_simp
  then show ?thesis
    by (auto split: option.splits res.splits)
qed

text \<open>
  C2. The claim asks that a call of \<^verbatim>\<open>insert\<close> either completes or is a no-op, also
  when it raises. The third of the calls above is neither: before it the tree holds 10
  (BLACK) and 20 (RED); after it, 30 is attached below 20 and 10 and 20 have exchanged
  their colours, but the rotation that the recolouring prepares has not happened, and
  the call has raised.
\<close>

theorem third_ascending_insert_is_partial:
  "\<exists>t2 t3. insert_all [10, 20::int] new_tree = Some (Ok () t2) \<and>
       insert_rb 30 t2 = Some (Raise AttributeError t3) \<and>
       root t2 = Addr 1 \<and> root t3 = Addr 1 \<and>
       objects t2 =
         [\<lparr>val = None, color = BLACK, parent = Addr 0, left = Addr 0, right = Addr 0\<rparr>,
          \<lparr>val = Some 10, color = BLACK, parent = Addr 0, left = Addr 0, right = Addr 2\<rparr>,
          \<lparr>val = Some 20, color = RED, parent = Addr 1, left = Addr 0, right = Addr 0\<rparr>] \<and>
       objects t3 =
         [\<lparr>val = None, color = BLACK, parent = Addr 0, left = Addr 0, right = Addr 0\<rparr>,
          \<lparr>val = Some 10, color = RED, parent = Addr 0, left = Addr 0, right = Addr 2\<rparr>,
          \<lparr>val = Some 20, color = BLACK, parent = Addr 1, left = Addr 0, right = Addr 3\<rparr>,
          \<lparr>val = Some 30, color = RED, parent = Addr 2, left = Addr 0, right = Addr 0\<rparr>]"
proof -
  have "case insert_all [10, 20::int] new_tree of
          Some (Ok u t2) \<Rightarrow>
            (case insert_rb 30 t2 of
               Some (Raise e t3) \<Rightarrow> e = AttributeError \<and>
                 root t2 = Addr 1 \<and> root t3 = Addr 1 \<and>
                 objects t2 =
         [\<lparr>val = None, color = BLACK, parent = Addr 0, left = Addr 0, right = Addr 0\<rparr>,
          \<lparr>val = Some 10, color = BLACK, parent = Addr 0, left = Addr 0, right = Addr 2\<rparr>,
          \<lparr>val = Some 20, color = RED, parent = Addr 1, left = Addr 0, right = Addr 0\<rparr>] \<and>
                 objects t3 =
         [\<lparr>val = None, color = BLACK, parent = Addr 0, left = Addr 0, right = Addr 0\<rparr>,
          \<lparr>val = Some 10, color = RED, parent = Addr 0, left = Addr 0, right = Addr 2\<rparr>,
          \<lparr>val = Some 20, color = BLACK, parent = Addr 1, left = Addr 0, right = Addr 3\<rparr>,
          \<lparr>val = Some 30, color = RED, parent = Addr 2, left = Addr 0, right = Addr 0\<rparr>]
             | _ \<Rightarrow> False)
        | _ \<Rightarrow> False"
    by code_simp
  then show ?thesis
    by (auto split: option.splits res.splits)
qed

text \<open>
  C3. The claim asks that inserting 10, 20, ..., 70 in this order gives a tree of
  height at most 3. The driver loop stops at the third call, which raises, with the
  three values in a chain. A client that goes on after each exception gets all seven
  values in one chain of right children, of height 7.
\<close>

theorem ascending_sequence_is_not_balanced:
  "(\<exists>t. insert_all [10, 20, 30, 40, 50, 60, 70::int] new_tree = Some (Raise AttributeError t) \<and>
        fresh t = 4 \<and> height t (root t) = Some 3) \<and>
   (\<exists>t. insert_each [10, 20, 30, 40, 50, 60, 70::int] new_tree = Some t \<and>
        fresh t = 8 \<and> height t (root t) = Some 7)"
proof -
  have "case insert_all [10, 20, 30, 40, 50, 60, 70::int] new_tree of
          Some (Raise e t) \<Rightarrow> e = AttributeError \<and> fresh t = 4 \<and> height t (root t) = Some 3
        | _ \<Rightarrow> False"
    by code_simp
  moreover have "case insert_each [10, 20, 30, 40, 50, 60, 70::int] new_tree of
          Some t \<Rightarrow> fresh t = 8 \<and> height t (root t) = Some 7
        | _ \<Rightarrow> False"
    by code_simp
  ultimately show ?thesis
    by (auto split: option.splits res.splits)
qed

text \<open>
  C7. The claim asks that no call ever writes to the sentinel. Inserting 30, 20 and 10
  leaves the root 30 RED (the third call raises as above, mirrored). The next call,
  \<^verbatim>\<open>insert(40)\<close>, attaches 40 as the right child of that RED root; the grandparent of
  the new node is then the sentinel, and line 133, \<^verbatim>\<open>node.parent.parent.color =
  Color.RED\<close>, colours the sentinel RED before line 134 raises.
\<close>

theorem sentinel_is_recoloured:
  "\<exists>t3 t4. insert_each [30, 20, 10::int] new_tree = Some t3 \<and> sentinel_black t3 \<and>
       insert_rb 40 t3 = Some (Raise AttributeError t4) \<and>
       NIL t4 = Addr 0 \<and> color (heap t4 0) = RED \<and> \<not> sentinel_black t4"
proof -
  have "case insert_each [30, 20, 10::int] new_tree of
          Some t3 \<Rightarrow> sentinel_black t3 \<and>
            (case insert_rb 40 t3 of
               Some (Raise e t4) \<Rightarrow> e = AttributeError \<and>
                  NIL t4 = Addr 0 \<and> color (heap t4 0) = RED \<and> \<not> sentinel_black t4
             | _ \<Rightarrow> False)
        | _ \<Rightarrow> False"
    by code_simp
  then show ?thesis
    by (auto split: option.splits res.splits)
qed

text \<open>
  Once the sentinel is RED the loop no longer has to stop at the root. When the working
  node is the sentinel itself and the sentinel is RED, an iteration takes case 1 with
  the sentinel as parent, uncle and grandparent: it paints the sentinel BLACK, BLACK and
  RED again and stays where it is.
\<close>

lemma fixup_while_red_sentinel:
  assumes "fixup_while node t = Some r"
  shows "\<not> (node = Addr 0 \<and> color (heap t 0) = RED \<and> parent (heap t 0) = Addr 0 \<and>
            left (heap t 0) = Addr 0 \<and> right (heap t 0) = Addr 0)"
proof (rule fixup_while.raw_induct [where P = "\<lambda>node t r.
    \<not> (node = Addr 0 \<and> color (heap t 0) = RED \<and> parent (heap t 0) = Addr 0 \<and>
            left (heap t 0) = Addr 0 \<and> right (heap t 0) = Addr 0)", OF _ assms], goal_cases)
  case (1 f node t r)
  show ?case
  proof
    assume s: "node = Addr 0 \<and> color (heap t 0) = RED \<and> parent (heap t 0) = Addr 0 \<and>
            left (heap t 0) = Addr 0 \<and> right (heap t 0) = Addr 0"
    then have test: "fixup_test node t = Ok True t"
      by (simp add: fixup_test_def ctrl)
    define t' where "t' = store 0 (\<lambda>n. n\<lparr>color := RED\<rparr>) (store 0 (\<lambda>n. n\<lparr>color := BLACK\<rparr>)
                  (store 0 (\<lambda>n. n\<lparr>color := BLACK\<rparr>) t))"
    from s have "fixup_body node t = Ok (Addr 0) t'"
      using fixup_body_unfold [of t 0 0 0] recolor_case_result [of t 0 0 0 0]
      by (simp add: t'_def)
    with test 1(2) have "f (Addr 0) t' = Some r" by simp
    from 1(1) [OF this] s show False by (simp add: t'_def)
  qed
qed

text \<open>
  This happens: after the calls for 30, 20, 10 and 40 above, 25 and 5 are inserted (the
  second of these recolours 20 RED, so that the BLACK root 30 has two RED children while
  the sentinel is still RED), and \<^verbatim>\<open>insert(35)\<close> then recolours up to the root, goes on
  because the root's parent, the sentinel, is RED, and never returns.
\<close>

lemma seventh_call_never_returns:
  "\<exists>t. insert_each [30, 20, 10, 40, 25, 5::int] new_tree = Some t \<and> insert_rb 35 t = None"
proof -
  have "(case insert_each [30, 20, 10, 40, 25, 5::int] new_tree of None \<Rightarrow> False | Some t6 \<Rightarrow>
       (case descend 35 (NIL t6) (root t6) t6 of None \<Rightarrow> False | Some d \<Rightarrow>
       (case d of Raise e t \<Rightarrow> False | Ok ex t6' \<Rightarrow>
       (case ex of Returned \<Rightarrow> False | Fell_through p \<Rightarrow>
       (case attach 35 \<lparr>val = Some 35, color = RED, parent = PyNone, left = NIL t6, right = NIL t6\<rparr> p t6' of
         Raise e t \<Rightarrow> False
       | Ok n t7 \<Rightarrow>
         (case fixup_test n t7 of Raise e t \<Rightarrow> False | Ok b7 t7' \<Rightarrow> b7 \<and>
         (case fixup_body n t7 of
           Raise e t \<Rightarrow> False
         | Ok n8 t8 \<Rightarrow>
           (case fixup_test n8 t8 of Raise e t \<Rightarrow> False | Ok b8 t8' \<Rightarrow> b8 \<and>
           (case fixup_body n8 t8 of
              Raise e t \<Rightarrow> False
            | Ok n9 t9 \<Rightarrow> n9 = Addr 0 \<and> color (heap t9 0) = RED \<and>
                parent (heap t9 0) = Addr 0 \<and> left (heap t9 0) = Addr 0 \<and>
                right (heap t9 0) = Addr 0)))))))))"
    by code_simp
  then obtain t6 where a1: "insert_each [30, 20, 10, 40, 25, 5::int] new_tree = Some t6"
    and b1: "(case descend 35 (NIL t6) (root t6) t6 of None \<Rightarrow> False | Some d \<Rightarrow>
       (case d of Raise e t \<Rightarrow> False | Ok ex t6' \<Rightarrow>
       (case ex of Returned \<Rightarrow> False | Fell_through p \<Rightarrow>
       (case attach 35 \<lparr>val = Some 35, color = RED, parent = PyNone, left = NIL t6, right = NIL t6\<rparr> p t6' of
         Raise e t \<Rightarrow> False
       | Ok n t7 \<Rightarrow>
         (case fixup_test n t7 of Raise e t \<Rightarrow> False | Ok b7 t7' \<Rightarrow> b7 \<and>
         (case fixup_body n t7 of
           Raise e t \<Rightarrow> False
         | Ok n8 t8 \<Rightarrow>
           (case fixup_test n8 t8 of Raise e t \<Rightarrow> False | Ok b8 t8' \<Rightarrow> b8 \<and>
           (case fixup_body n8 t8 of
              Raise e t \<Rightarrow> False
            | Ok n9 t9 \<Rightarrow> n9 = Addr 0 \<and> color (heap t9 0) = RED \<and>
                parent (heap t9 0) = Addr 0 \<and> left (heap t9 0) = Addr 0 \<and>
                right (heap t9 0) = Addr 0))))))))"
    by (cases "insert_each [30, 20, 10, 40, 25, 5::int] new_tree") simp_all
  let ?new = "\<lparr>val = Some (35::int), color = RED, parent = PyNone, left = NIL t6, right = NIL t6\<rparr>"
  from b1 obtain d where a2: "descend 35 (NIL t6) (root t6) t6 = Some d"
    and b2: "(case d of Raise e t \<Rightarrow> False | Ok ex t6' \<Rightarrow>
       (case ex of Returned \<Rightarrow> False | Fell_through p \<Rightarrow>
       (case attach 35 ?new p t6' of
         Raise e t \<Rightarrow> False
       | Ok n t7 \<Rightarrow>
         (case fixup_test n t7 of Raise e t \<Rightarrow> False | Ok b7 t7' \<Rightarrow> b7 \<and>
         (case fixup_body n t7 of
           Raise e t \<Rightarrow> False
         | Ok n8 t8 \<Rightarrow>
           (case fixup_test n8 t8 of Raise e t \<Rightarrow> False | Ok b8 t8' \<Rightarrow> b8 \<and>
           (case fixup_body n8 t8 of
              Raise e t \<Rightarrow> False
            | Ok n9 t9 \<Rightarrow> n9 = Addr 0 \<and> color (heap t9 0) = RED \<and>
                parent (heap t9 0) = Addr 0 \<and> left (heap t9 0) = Addr 0 \<and>
                right (heap t9 0) = Addr 0)))))))"
    by (cases "descend 35 (NIL t6) (root t6) t6") simp_all
  from b2 obtain ex t6' where a3: "d = Ok ex t6'"
    and b3: "(case ex of Returned \<Rightarrow> False | Fell_through p \<Rightarrow>
       (case attach 35 ?new p t6' of
         Raise e t \<Rightarrow> False
       | Ok n t7 \<Rightarrow>
         (case fixup_test n t7 of Raise e t \<Rightarrow> False | Ok b7 t7' \<Rightarrow> b7 \<and>
         (case fixup_body n t7 of
           Raise e t \<Rightarrow> False
         | Ok n8 t8 \<Rightarrow>
           (case fixup_test n8 t8 of Raise e t \<Rightarrow> False | Ok b8 t8' \<Rightarrow> b8 \<and>
           (case fixup_body n8 t8 of
              Raise e t \<Rightarrow> False
            | Ok n9 t9 \<Rightarrow> n9 = Addr 0 \<and> color (heap t9 0) = RED \<and>
                parent (heap t9 0) = Addr 0 \<and> left (heap t9 0) = Addr 0 \<and>
                right (heap t9 0) = Addr 0))))))"
    by (cases d) simp_all
  from b3 obtain p where a4: "ex = Fell_through p"
    and b4: "(case attach 35 ?new p t6' of
         Raise e t \<Rightarrow> False
       | Ok n t7 \<Rightarrow>
         (case fixup_test n t7 of Raise e t \<Rightarrow> False | Ok b7 t7' \<Rightarrow> b7 \<and>
         (case fixup_body n t7 of
           Raise e t \<Rightarrow> False
         | Ok n8 t8 \<Rightarrow>
           (case fixup_test n8 t8 of Raise e t \<Rightarrow> False | Ok b8 t8' \<Rightarrow> b8 \<and>
           (case fixup_body n8 t8 of
              Raise e t \<Rightarrow> False
            | Ok n9 t9 \<Rightarrow> n9 = Addr 0 \<and> color (heap t9 0) = RED \<and>
                parent (heap t9 0) = Addr 0 \<and> left (heap t9 0) = Addr 0 \<and>
                right (heap t9 0) = Addr 0)))))"
    by (cases ex) simp_all
  from b4 obtain n t7 where a5: "attach 35 ?new p t6' = Ok n t7"
    and b5: "(case fixup_test n t7 of Raise e t \<Rightarrow> False | Ok b7 t7' \<Rightarrow> b7 \<and>
         (case fixup_body n t7 of
           Raise e t \<Rightarrow> False
         | Ok n8 t8 \<Rightarrow>
           (case fixup_test n8 t8 of Raise e t \<Rightarrow> False | Ok b8 t8' \<Rightarrow> b8 \<and>
           (case fixup_body n8 t8 of
              Raise e t \<Rightarrow> False
            | Ok n9 t9 \<Rightarrow> n9 = Addr 0 \<and> color (heap t9 0) = RED \<and>
                parent (heap t9 0) = Addr 0 \<and> left (heap t9 0) = Addr 0 \<and>
                right (heap t9 0) = Addr 0))))"
    by (cases "attach 35 ?new p t6'") simp_all
  from b5 obtain t7' where a6: "fixup_test n t7 = Ok True t7'"
    and b6: "(case fixup_body n t7 of
           Raise e t \<Rightarrow> False
         | Ok n8 t8 \<Rightarrow>
           (case fixup_test n8 t8 of Raise e t \<Rightarrow> False | Ok b8 t8' \<Rightarrow> b8 \<and>
           (case fixup_body n8 t8 of
              Raise e t \<Rightarrow> False
            | Ok n9 t9 \<Rightarrow> n9 = Addr 0 \<and> color (heap t9 0) = RED \<and>
                parent (heap t9 0) = Addr 0 \<and> left (heap t9 0) = Addr 0 \<and>
                right (heap t9 0) = Addr 0)))"
    by (cases "fixup_test n t7") simp_all
  from b6 obtain n8 t8 where a7: "fixup_body n t7 = Ok n8 t8"
    and b7: "(case fixup_test n8 t8 of Raise e t \<Rightarrow> False | Ok b8 t8' \<Rightarrow> b8 \<and>
           (case fixup_body n8 t8 of
              Raise e t \<Rightarrow> False
            | Ok n9 t9 \<Rightarrow> n9 = Addr 0 \<and> color (heap t9 0) = RED \<and>
                parent (heap t9 0) = Addr 0 \<and> left (heap t9 0) = Addr 0 \<and>
                right (heap t9 0) = Addr 0))"
    by (cases "fixup_body n t7") simp_all
  from b7 obtain t8' where a8: "fixup_test n8 t8 = Ok True t8'"
    and b8: "(case fixup_body n8 t8 of
              Raise e t \<Rightarrow> False
            | Ok n9 t9 \<Rightarrow> n9 = Addr 0 \<and> color (heap t9 0) = RED \<and>
                parent (heap t9 0) = Addr 0 \<and> left (heap t9 0) = Addr 0 \<and>
                right (heap t9 0) = Addr 0)"
    by (cases "fixup_test n8 t8") simp_all
  from b8 obtain t9 where a9: "fixup_body n8 t8 = Ok (Addr 0) t9"
    and s: "color (heap t9 0) = RED" "parent (heap t9 0) = Addr 0" "left (heap t9 0) = Addr 0"
      "right (heap t9 0) = Addr 0"
    by (cases "fixup_body n8 t8") simp_all
  from a6 fixup_test_state [of n t7] have t7': "t7' = t7" by simp
  from a8 fixup_test_state [of n8 t8] have t8': "t8' = t8" by simp
  have "fixup_while (Addr 0) t9 = None"
    using fixup_while_red_sentinel [of "Addr 0" t9] s by (cases "fixup_while (Addr 0) t9") auto
  then have "fixup_while n8 t8 = None"
    using a8 a9 t8' by (subst fixup_while.simps) simp
  then have "fixup_while n t7 = None"
    using a6 a7 t7' by (subst fixup_while.simps) simp
  then have "insert_rb 35 t6 = None"
    using a2 a3 a4 a5 by (simp add: insert_rb_def Let_def insert_fixup_def)
  with a1 show ?thesis by blast
qed

subsection \<open>Insertions that need no rotation\<close>

text \<open>
  C6. Inserting 20, 10, 25, 5, 15 and 30 into a new tree: every call returns, and the
  objects are, in the order of their creation, the sentinel (0), 20 (1), 10 (2), 25 (3),
  5 (4), 15 (5) and 30 (6). The root is 20, BLACK; its children are 10 and 25, both
  BLACK; the children of 10 are 5 and 15, both RED; the left child of 25 is the
  sentinel and its right child is 30, RED.
\<close>

theorem scenario_1:
  "\<exists>t. insert_all [20, 10, 25, 5, 15, 30::int] new_tree = Some (Ok () t) \<and>
       NIL t = Addr 0 \<and> root t = Addr 1 \<and>
       objects t =
         [\<lparr>val = None, color = BLACK, parent = Addr 0, left = Addr 0, right = Addr 0\<rparr>,
          \<lparr>val = Some 20, color = BLACK, parent = Addr 0, left = Addr 2, right = Addr 3\<rparr>,
          \<lparr>val = Some 10, color = BLACK, parent = Addr 1, left = Addr 4, right = Addr 5\<rparr>,
          \<lparr>val = Some 25, color = BLACK, parent = Addr 1, left = Addr 0, right = Addr 6\<rparr>,
          \<lparr>val = Some 5, color = RED, parent = Addr 2, left = Addr 0, right = Addr 0\<rparr>,
          \<lparr>val = Some 15, color = RED, parent = Addr 2, left = Addr 0, right = Addr 0\<rparr>,
          \<lparr>val = Some 30, color = RED, parent = Addr 3, left = Addr 0, right = Addr 0\<rparr>]"
proof -
  have "case insert_all [20, 10, 25, 5, 15, 30::int] new_tree of
          Some (Ok u t) \<Rightarrow> NIL t = Addr 0 \<and> root t = Addr 1 \<and>
            objects t =
         [\<lparr>val = None, color = BLACK, parent = Addr 0, left = Addr 0, right = Addr 0\<rparr>,
          \<lparr>val = Some 20, color = BLACK, parent = Addr 0, left = Addr 2, right = Addr 3\<rparr>,
          \<lparr>val = Some 10, color = BLACK, parent = Addr 1, left = Addr 4, right = Addr 5\<rparr>,
          \<lparr>val = Some 25, color = BLACK, parent = Addr 1, left = Addr 0, right = Addr 6\<rparr>,
          \<lparr>val = Some 5, color = RED, parent = Addr 2, left = Addr 0, right = Addr 0\<rparr>,
          \<lparr>val = Some 15, color = RED, parent = Addr 2, left = Addr 0, right = Addr 0\<rparr>,
          \<lparr>val = Some 30, color = RED, parent = Addr 3, left = Addr 0, right = Addr 0\<rparr>]
        | _ \<Rightarrow> False"
    by code_simp
  then show ?thesis
    by (auto split: option.splits res.splits)
qed

end
